theory Spec2Isabelle
  imports Main "HOL-Library.AList" "HOL-Library.Multiset"
begin

section \<open>Text primitives of \<open>ai_cli/utils.py\<close>\<close>

text \<open>
  A Python \<open>str\<close> is modelled as a \<open>string\<close> whose characters are the code points
  0..255. The three character classes the code relies on (\<open>\s\<close> and \<open>str.strip\<close>,
  \<open>\w\<close>, \<open>str.lower\<close>) are written out for that range as Python defines them.
\<close>

definition is_space :: "char \<Rightarrow> bool" where
  "is_space c =
     (let n = (of_char c :: nat)
      in (9 \<le> n \<and> n \<le> 13) \<or> (28 \<le> n \<and> n \<le> 32) \<or> n = 133 \<or> n = 160)"

definition is_word :: "char \<Rightarrow> bool" where
  "is_word c =
     (let n = (of_char c :: nat)
      in (48 \<le> n \<and> n \<le> 57) \<or> (65 \<le> n \<and> n \<le> 90) \<or> n = 95 \<or> (97 \<le> n \<and> n \<le> 122)
         \<or> n = 170 \<or> n = 178 \<or> n = 179 \<or> n = 181 \<or> n = 185 \<or> n = 186
         \<or> (188 \<le> n \<and> n \<le> 190) \<or> (192 \<le> n \<and> n \<le> 214) \<or> (216 \<le> n \<and> n \<le> 246)
         \<or> 248 \<le> n)"

definition lower_char :: "char \<Rightarrow> char" where
  "lower_char c =
     (let n = (of_char c :: nat)
      in if (65 \<le> n \<and> n \<le> 90) \<or> (192 \<le> n \<and> n \<le> 214) \<or> (216 \<le> n \<and> n \<le> 222)
         then char_of (n + 32) else c)"

definition lower :: "string \<Rightarrow> string" where
  "lower s = map lower_char s"

text \<open>The characters of the look-behind class \<open>[.!?]\<close>.\<close>

definition is_terminal :: "char \<Rightarrow> bool" where
  "is_terminal c = (c = CHR ''.'' \<or> c = CHR ''!'' \<or> c = CHR ''?'')"

definition STOPWORDS :: "string set" where
  "STOPWORDS = {''a'', ''an'', ''and'', ''are'', ''as'', ''at'', ''be'', ''by'', ''for'',
     ''from'', ''has'', ''have'', ''he'', ''her'', ''his'', ''i'', ''in'', ''is'', ''it'',
     ''its'', ''of'', ''on'', ''or'', ''that'', ''the'', ''their'', ''there'', ''they'',
     ''this'', ''to'', ''was'', ''were'', ''will'', ''with'', ''you'', ''your''}"

text \<open>\<open>re.sub(r"\s+", " ", text)\<close>: every maximal run of whitespace becomes one space.\<close>

function re_sub_ws :: "string \<Rightarrow> string" where
  "re_sub_ws [] = []"
| "re_sub_ws (c # cs) =
     (if is_space c then CHR '' '' # re_sub_ws (dropWhile is_space cs)
      else c # re_sub_ws cs)"
  by pat_completeness auto
termination
  by (relation "measure length") (auto simp: le_imp_less_Suc length_dropWhile_le)

text \<open>\<open>str.strip()\<close>: leading and trailing whitespace removed.\<close>

definition strip :: "string \<Rightarrow> string" where
  "strip s = rev (dropWhile is_space (rev (dropWhile is_space s)))"

definition normalize_whitespace :: "string \<Rightarrow> string" where
  "normalize_whitespace text = strip (re_sub_ws text)"

text \<open>
  \<open>re.split(r"(?<=[.!?])\s+", text)\<close>. The flag says whether the character before the
  current position is one of \<open>.!?\<close>, which is what the look-behind tests; a match takes
  the whole whitespace run, and the search resumes behind it, where the previous
  character is whitespace. The result is the list of pieces between the matches.
\<close>

function re_split :: "bool \<Rightarrow> string \<Rightarrow> string list" where
  "re_split b [] = [[]]"
| "re_split b (c # cs) =
     (if b \<and> is_space c then [] # re_split False (dropWhile is_space cs)
      else (case re_split (is_terminal c) cs of
              [] \<Rightarrow> [[c]]
            | p # ps \<Rightarrow> (c # p) # ps))"
  by pat_completeness auto
termination
  by (relation "measure (\<lambda>(b, s). length s)") (auto simp: le_imp_less_Suc length_dropWhile_le)

definition split_sentences :: "string \<Rightarrow> string list" where
  "split_sentences text0 =
     (let text = normalize_whitespace text0
      in if text = [] then []
         else map strip (filter (\<lambda>p. strip p \<noteq> []) (re_split False text)))"

text \<open>\<open>re.findall(r"\w+", s)\<close>: the maximal runs of word characters, left to right.\<close>

function findall_word :: "string \<Rightarrow> string list" where
  "findall_word [] = []"
| "findall_word (c # cs) =
     (if is_word c then takeWhile is_word (c # cs) # findall_word (dropWhile is_word cs)
      else findall_word cs)"
  by pat_completeness auto
termination
  by (relation "measure length") (auto simp: le_imp_less_Suc length_dropWhile_le)

text \<open>\<open>" ".join(xs)\<close>.\<close>

fun join_space :: "string list \<Rightarrow> string" where
  "join_space [] = []"
| "join_space [x] = x"
| "join_space (x # y # ys) = x @ CHR '' '' # join_space (y # ys)"

text \<open>A prefix slice \<open>xs[:n]\<close> with Python's reading of a negative bound.\<close>

definition py_take :: "int \<Rightarrow> 'a list \<Rightarrow> 'a list" where
  "py_take n xs = (if 0 \<le> n then take (nat n) xs else take (nat (int (length xs) + n)) xs)"

section \<open>The frequency summarizer (\<open>summarize_text\<close>)\<close>

text \<open>The frequency table is a dictionary; \<open>freqs.get(token, 0)\<close> is \<open>freq_get\<close>.\<close>

type_synonym freq_table = "(string \<times> int) list"

definition freq_get :: "freq_table \<Rightarrow> string \<Rightarrow> int" where
  "freq_get freqs token = (case map_of freqs token of None \<Rightarrow> 0 | Some n \<Rightarrow> n)"

definition count_token :: "string \<Rightarrow> freq_table \<Rightarrow> freq_table" where
  "count_token token freqs =
     (if token \<in> STOPWORDS \<or> length token \<le> 2 then freqs
      else AList.update token (freq_get freqs token + 1) freqs)"

definition build_word_frequencies :: "string list \<Rightarrow> freq_table" where
  "build_word_frequencies sentences =
     fold (\<lambda>sentence freqs. fold count_token (findall_word (lower sentence)) freqs)
       sentences []"

definition sentence_score :: "freq_table \<Rightarrow> string \<Rightarrow> int" where
  "sentence_score freqs sentence =
     sum_list (map (freq_get freqs) (findall_word (lower sentence)))"

text \<open>The list \<open>scored_sentences\<close> of triples (score, idx, sentence), in index order.\<close>

definition score_sentences :: "freq_table \<Rightarrow> string list \<Rightarrow> (int \<times> nat \<times> string) list" where
  "score_sentences freqs sentences =
     map (\<lambda>(idx, sentence). (sentence_score freqs sentence, idx, sentence))
       (enumerate 0 sentences)"

text \<open>
  \<open>scored_sentences.sort(key=score, reverse=True)\<close> followed by
  \<open>sorted(scored_sentences[:max_sentences], key=idx)\<close>. Both sorts are stable; the
  descending one keeps equal scores in their original order.
\<close>

definition sort_by_score_desc :: "(int \<times> nat \<times> string) list \<Rightarrow> (int \<times> nat \<times> string) list" where
  "sort_by_score_desc scored = sort_key (\<lambda>x. - fst x) scored"

definition top_sentences :: "int \<Rightarrow> (int \<times> nat \<times> string) list \<Rightarrow> (int \<times> nat \<times> string) list" where
  "top_sentences max_sentences scored =
     sort_key (\<lambda>x. fst (snd x)) (py_take max_sentences (sort_by_score_desc scored))"

definition summarize_text :: "string \<Rightarrow> int \<Rightarrow> string" where
  "summarize_text text0 max_sentences =
     (let text = normalize_whitespace text0;
          sentences = split_sentences text
      in if sentences = [] then []
         else if int (length sentences) \<le> max_sentences then join_space sentences
         else
           (let freqs = build_word_frequencies sentences
            in if freqs = [] then join_space (py_take max_sentences sentences)
               else join_space
                      (map (\<lambda>x. snd (snd x))
                         (top_sentences max_sentences (score_sentences freqs sentences)))))"

section \<open>The quiz builder (\<open>ai_cli/quiz_generator.py\<close>)\<close>

datatype error =
    UnsupportedSummaryLength string  \<comment> \<open>the \<open>ValueError\<close> of \<open>summarize_file\<close>\<close>
  | NotInList string                 \<comment> \<open>the \<open>ValueError\<close> of \<open>list.index\<close>\<close>
  | FileNotFound string              \<comment> \<open>the \<open>FileNotFoundError\<close> of the file readers\<close>
  | UnsupportedFileType string       \<comment> \<open>the \<open>ValueError\<close> of \<open>load_text_from_path\<close>\<close>

record MCQ =
  question :: string
  options :: "string list"
  answer_index :: nat

text \<open>
  The pseudo-random source is the sequence of its future draws; \<open>randbelow n\<close> takes the
  next draw and reduces it below \<open>n\<close> (an exhausted sequence keeps drawing 0). Theorems
  that hold for every sequence hold for every outcome of \<open>random.choice\<close> and
  \<open>random.shuffle\<close>.
\<close>

type_synonym rng = "nat list"

definition randbelow :: "nat \<Rightarrow> rng \<Rightarrow> nat \<times> rng" where
  "randbelow n g = (case g of [] \<Rightarrow> (0, []) | d # ds \<Rightarrow> (d mod n, ds))"

text \<open>
  \<open>random.shuffle(x)\<close>: for \<open>i\<close> from \<open>len(x) - 1\<close> down to 1, draw \<open>j\<close> below \<open>i + 1\<close>
  and swap \<open>x[i]\<close> with \<open>x[j]\<close>.
\<close>

fun shuffle_from :: "nat \<Rightarrow> 'a list \<Rightarrow> rng \<Rightarrow> 'a list \<times> rng" where
  "shuffle_from 0 xs g = (xs, g)"
| "shuffle_from (Suc i) xs g =
     (let (j, g') = randbelow (Suc i + 1) g
      in shuffle_from i (xs[Suc i := xs ! j, j := xs ! Suc i]) g')"

definition shuffle :: "'a list \<Rightarrow> rng \<Rightarrow> 'a list \<times> rng" where
  "shuffle xs g = shuffle_from (length xs - 1) xs g"

text \<open>\<open>xs.index(x)\<close>: the first position holding \<open>x\<close>, or no position.\<close>

fun index_of :: "'a \<Rightarrow> 'a list \<Rightarrow> nat option" where
  "index_of x [] = None"
| "index_of x (y # ys) =
     (if y = x then Some 0 else map_option Suc (index_of x ys))"

text \<open>\<open>str(n)\<close> for a non-negative integer.\<close>

function str_nat :: "nat \<Rightarrow> string" where
  "str_nat n =
     (if n < 10 then [char_of (48 + n)]
      else str_nat (n div 10) @ [char_of (48 + n mod 10)])"
  by pat_completeness auto
termination
  by (relation "measure id") auto

declare str_nat.simps [simp del]

text \<open>\<open>s.split()\<close>: the maximal runs of non-whitespace characters.\<close>

function py_split :: "string \<Rightarrow> string list" where
  "py_split [] = []"
| "py_split (c # cs) =
     (if is_space c then py_split cs
      else takeWhile (\<lambda>x. \<not> is_space x) (c # cs) # py_split (dropWhile (\<lambda>x. \<not> is_space x) cs))"
  by pat_completeness auto
termination
  by (relation "measure length") (auto simp: le_imp_less_Suc length_dropWhile_le)

definition select_answer_word :: "string \<Rightarrow> string set \<Rightarrow> rng \<Rightarrow> string option \<times> rng" where
  "select_answer_word sentence used_answers g =
     (let tokens = findall_word sentence;
          candidates = filter (\<lambda>t. length t > 3 \<and> lower t \<notin> STOPWORDS
                                    \<and> lower t \<notin> used_answers) tokens
      in if candidates = [] then (None, g)
         else (let (i, g') = randbelow (length candidates) g
               in (Some (candidates ! i), g')))"

text \<open>
  The pattern \<open>\banswer\b\<close> under \<open>re.IGNORECASE\<close>: \<open>match_at answer prev rest\<close> says
  whether it matches where \<open>rest\<close> begins, \<open>prev\<close> being the character before. A word
  boundary lies between two positions of which exactly one holds a word character.
\<close>

definition word_at :: "char option \<Rightarrow> bool" where
  "word_at x = (case x of None \<Rightarrow> False | Some c \<Rightarrow> is_word c)"

definition first_char :: "string \<Rightarrow> char option" where
  "first_char s = (case s of [] \<Rightarrow> None | c # _ \<Rightarrow> Some c)"

definition match_at :: "string \<Rightarrow> char option \<Rightarrow> string \<Rightarrow> bool" where
  "match_at answer prev rest =
     (let n = length answer
      in n \<le> length rest
         \<and> word_at prev \<noteq> word_at (first_char rest)
         \<and> lower (take n rest) = lower answer
         \<and> word_at (if n = 0 then prev else Some (rest ! (n - 1)))
             \<noteq> word_at (first_char (drop n rest)))"

text \<open>\<open>pattern.sub("____", sentence, count=1)\<close>: the leftmost match is replaced.\<close>

fun sub_first :: "string \<Rightarrow> char option \<Rightarrow> string \<Rightarrow> string" where
  "sub_first answer prev [] = (if match_at answer prev [] then ''____'' else [])"
| "sub_first answer prev (c # cs) =
     (if match_at answer prev (c # cs) then ''____'' @ drop (length answer) (c # cs)
      else c # sub_first answer (Some c) cs)"

definition build_question :: "string \<Rightarrow> string \<Rightarrow> string" where
  "build_question sentence answer = sub_first answer None sentence"

text \<open>The \<open>for token in vocabulary\<close> loop of \<open>_build_distractors\<close>, with its \<open>break\<close>.\<close>

fun scan_vocabulary ::
  "int \<Rightarrow> string list \<Rightarrow> string list \<Rightarrow> string set \<Rightarrow> string list \<times> string set" where
  "scan_vocabulary k [] distractors seen = (distractors, seen)"
| "scan_vocabulary k (token # vocabulary) distractors seen =
     (let token_lower = lower token
      in if token_lower \<in> seen then scan_vocabulary k vocabulary distractors seen
         else if length token \<le> 3 \<or> token_lower \<in> STOPWORDS
              then scan_vocabulary k vocabulary distractors seen
         else (let distractors' = distractors @ [token];
                   seen' = insert token_lower seen
               in if int (length distractors') \<ge> k then (distractors', seen')
                  else scan_vocabulary k vocabulary distractors' seen'))"

text \<open>
  The \<open>while len(distractors) < k\<close> loop. Nothing bounds its iterations in the source,
  so the model is a partial function: \<open>None\<close> is the loop that never ends.
\<close>

partial_function (option) synthesize ::
  "string \<Rightarrow> int \<Rightarrow> string list \<Rightarrow> string set \<Rightarrow> (string list \<times> string set) option" where
  "synthesize answer k distractors seen =
     (if int (length distractors) < k
      then (let synthetic = take 3 answer @ str_nat (length distractors + 1)
            in if lower synthetic \<notin> seen
               then synthesize answer k (distractors @ [synthetic]) (insert (lower synthetic) seen)
               else synthesize answer k distractors seen)
      else Some (distractors, seen))"

declare synthesize.simps [code]

definition build_distractors :: "string \<Rightarrow> string list \<Rightarrow> int \<Rightarrow> string list option" where
  "build_distractors answer vocabulary k =
     (case scan_vocabulary k vocabulary [] {lower answer} of
        (distractors, seen) \<Rightarrow>
          map_option (\<lambda>(distractors', seen'). py_take k distractors')
            (synthesize answer k distractors seen))"

text \<open>The vocabulary loop of \<open>generate_mcqs_from_text\<close>.\<close>

definition add_vocab_token :: "string \<Rightarrow> string list \<times> string set \<Rightarrow> string list \<times> string set" where
  "add_vocab_token token st =
     (case st of (vocab_unique, seen) \<Rightarrow>
        (let token_lower = lower token
         in if token_lower \<in> seen \<or> token_lower \<in> STOPWORDS \<or> length token_lower \<le> 3
            then (vocab_unique, seen)
            else (vocab_unique @ [token], insert token_lower seen)))"

definition build_vocabulary :: "string \<Rightarrow> string list" where
  "build_vocabulary text = fst (fold add_vocab_token (findall_word text) ([], {}))"

text \<open>
  The state of the question loop: the questions so far, the set \<open>used_answers\<close> and the
  random source. \<open>mcq_body\<close> is one pass of the loop body for a sentence: \<open>None\<close> when
  the distractor loop never ends, \<open>Inl\<close> when \<open>options.index\<close> raises, and otherwise
  the state after the pass (unchanged but for the random source on \<open>continue\<close>).
\<close>

type_synonym quiz_state = "MCQ list \<times> string set \<times> rng"

definition mcq_body :: "string list \<Rightarrow> string \<Rightarrow> quiz_state \<Rightarrow> (error + quiz_state) option" where
  "mcq_body vocab_unique sentence st =
     (case st of (mcqs, used_answers, g) \<Rightarrow>
        (case select_answer_word sentence used_answers g of
           (None, g1) \<Rightarrow> Some (Inr (mcqs, used_answers, g1))
         | (Some answer, g1) \<Rightarrow>
             if answer = [] then Some (Inr (mcqs, used_answers, g1))
             else (let question = build_question sentence answer
                   in if question = sentence then Some (Inr (mcqs, used_answers, g1))
                      else (case build_distractors answer vocab_unique 3 of
                              None \<Rightarrow> None
                            | Some distractors \<Rightarrow>
                                (case shuffle (distractors @ [answer]) g1 of
                                   (opts, g2) \<Rightarrow>
                                     (case index_of answer opts of
                                        None \<Rightarrow> Some (Inl (NotInList answer))
                                      | Some i \<Rightarrow>
                                          Some (Inr
                                            (mcqs @ [\<lparr>question = question, options = opts,
                                                      answer_index = i\<rparr>],
                                             insert (lower answer) used_answers, g2))))))))"

fun mcq_loop ::
  "string list \<Rightarrow> int \<Rightarrow> string list \<Rightarrow> quiz_state \<Rightarrow> (error + quiz_state) option" where
  "mcq_loop vocab_unique num_questions [] st = Some (Inr st)"
| "mcq_loop vocab_unique num_questions (sentence # rest) st =
     (if int (length (fst st)) \<ge> num_questions then Some (Inr st)
      else (case mcq_body vocab_unique sentence st of
              None \<Rightarrow> None
            | Some (Inl e) \<Rightarrow> Some (Inl e)
            | Some (Inr st') \<Rightarrow> mcq_loop vocab_unique num_questions rest st'))"

definition eligible_sentences :: "string \<Rightarrow> string list" where
  "eligible_sentences text = filter (\<lambda>s. length (py_split s) \<ge> 5) (split_sentences text)"

text \<open>
  \<open>quiz_run\<close> is \<open>generate_mcqs_from_text\<close> with its final local state;
  \<open>generate_mcqs_from_text\<close> returns the questions of that state.
\<close>

definition quiz_run :: "rng \<Rightarrow> string \<Rightarrow> int \<Rightarrow> (error + quiz_state) option" where
  "quiz_run g text0 num_questions =
     (let text = normalize_whitespace text0;
          sentences = eligible_sentences text
      in if sentences = [] then Some (Inr ([], {}, g))
         else mcq_loop (build_vocabulary text) num_questions sentences ([], {}, g))"

definition generate_mcqs_from_text :: "rng \<Rightarrow> string \<Rightarrow> int \<Rightarrow> (error + MCQ list) option" where
  "generate_mcqs_from_text g text0 num_questions =
     map_option (map_sum id fst) (quiz_run g text0 num_questions)"

section \<open>The file-level entry points\<close>




section \<open>Auxiliary predicates for the proofs\<close>

text \<open>
  \<open>ws1\<close>: every whitespace character is a space and no two are adjacent.
  \<open>ws_ok\<close>: moreover every space is followed by a character. \<open>clean\<close>: moreover the
  string does not begin with a space; these are the whitespace-normalized strings.
\<close>

fun ws1 :: "string \<Rightarrow> bool" where
  "ws1 [] = True"
| "ws1 (c # cs) = ((is_space c \<longrightarrow> c = CHR '' '' \<and> (cs = [] \<or> \<not> is_space (hd cs))) \<and> ws1 cs)"

fun ws_ok :: "string \<Rightarrow> bool" where
  "ws_ok [] = True"
| "ws_ok (c # cs) = ((is_space c \<longrightarrow> c = CHR '' '' \<and> cs \<noteq> [] \<and> \<not> is_space (hd cs)) \<and> ws_ok cs)"

text \<open>\<open>rstrip\<close>: trailing whitespace removed (the outer half of \<open>strip\<close>).\<close>

definition rstrip :: "string \<Rightarrow> string" where
  "rstrip s = rev (dropWhile is_space (rev s))"

definition clean :: "string \<Rightarrow> bool" where
  "clean s = (ws_ok s \<and> (s = [] \<or> \<not> is_space (hd s)))"

text \<open>
  \<open>nosplit b p\<close>: the sentence pattern matches nowhere in \<open>p\<close>, \<open>b\<close> saying whether a
  character of \<open>.!?\<close> precedes \<open>p\<close>. \<open>last_term b p\<close>: a split may follow \<open>p\<close>.
\<close>

fun nosplit :: "bool \<Rightarrow> string \<Rightarrow> bool" where
  "nosplit b [] = True"
| "nosplit b (c # cs) = (\<not> (b \<and> is_space c) \<and> nosplit (is_terminal c) cs)"

definition last_term :: "bool \<Rightarrow> string \<Rightarrow> bool" where
  "last_term b p = (if p = [] then b else is_terminal (last p))"

text \<open>
  \<open>sentence_like p\<close>: a non-empty normalized string without a sentence boundary inside.
  \<open>sentence_list ys\<close>: such strings, each but the last ending in one of \<open>.!?\<close>.
\<close>

definition sentence_like :: "string \<Rightarrow> bool" where
  "sentence_like p = (p \<noteq> [] \<and> clean p \<and> nosplit False p)"

definition sentence_list :: "string list \<Rightarrow> bool" where
  "sentence_list ys =
     ((\<forall>p \<in> set ys. sentence_like p)
      \<and> (\<forall>i. Suc i < length ys \<longrightarrow> is_terminal (last (ys ! i))))"

text \<open>
  \<open>mcq_answer q\<close>: the option that \<open>answer_index\<close> points at. \<open>answer_candidate s a\<close>:
  \<open>a\<close> is a token of the sentence \<open>s\<close> that \<open>_select_answer_word\<close> may pick whatever
  was used before. \<open>distractor_inv\<close> and \<open>quiz_inv\<close> are the loop invariants of
  \<open>_build_distractors\<close> and of the question loop.
\<close>

definition mcq_answer :: "MCQ \<Rightarrow> string" where
  "mcq_answer q = options q ! answer_index q"

definition answer_candidate :: "string \<Rightarrow> string \<Rightarrow> bool" where
  "answer_candidate s a = (a \<in> set (findall_word s) \<and> length a > 3 \<and> lower a \<notin> STOPWORDS)"

definition distractor_inv :: "string \<Rightarrow> string list \<Rightarrow> string set \<Rightarrow> bool" where
  "distractor_inv answer distractors seen =
     (distinct (map lower distractors) \<and> lower ` set distractors \<subseteq> seen
      \<and> lower answer \<in> seen \<and> lower answer \<notin> lower ` set distractors)"

definition mcq_ok :: "string list \<Rightarrow> MCQ \<Rightarrow> bool" where
  "mcq_ok sentences q =
     (length (options q) = 4 \<and> answer_index q < 4 \<and> distinct (map lower (options q))
      \<and> (\<exists>s \<in> set sentences. answer_candidate s (mcq_answer q)
            \<and> question q = build_question s (mcq_answer q)))"

definition quiz_inv :: "string list \<Rightarrow> quiz_state \<Rightarrow> bool" where
  "quiz_inv sentences st =
     (case st of (mcqs, used_answers, g) \<Rightarrow>
        (\<forall>q \<in> set mcqs. mcq_ok sentences q)
        \<and> used_answers = set (map (\<lambda>q. lower (mcq_answer q)) mcqs)
        \<and> distinct (map (\<lambda>q. lower (mcq_answer q)) mcqs))"

section \<open>Whitespace normalization\<close>

lemma is_space_blank [simp]: "is_space (CHR '' '')"
  by (simp add: is_space_def)

lemma terminal_not_space: "is_terminal c \<Longrightarrow> \<not> is_space c"
  by (auto simp: is_terminal_def is_space_def)

lemma re_sub_ws_hd:
  "s \<noteq> [] \<Longrightarrow> \<not> is_space (hd s) \<Longrightarrow> re_sub_ws s \<noteq> [] \<and> hd (re_sub_ws s) = hd s"
  by (cases s) auto

lemma dropWhile_hd_not: "dropWhile P xs \<noteq> [] \<Longrightarrow> \<not> P (hd (dropWhile P xs))"
  using hd_dropWhile by blast

lemma ws1_re_sub_ws: "ws1 (re_sub_ws t)"
proof (induction t rule: re_sub_ws.induct)
  case 1
  show ?case by simp
next
  case (2 c cs)
  show ?case
  proof (cases "is_space c")
    case True
    let ?r = "dropWhile is_space cs"
    have "re_sub_ws ?r = [] \<or> \<not> is_space (hd (re_sub_ws ?r))"
    proof (cases "?r = []")
      case True
      then have "re_sub_ws ?r = []" by (simp only: re_sub_ws.simps)
      then show ?thesis by (rule disjI1)
    next
      case False
      then have "\<not> is_space (hd ?r)" by (rule dropWhile_hd_not)
      with False show ?thesis using re_sub_ws_hd [of ?r] by simp
    qed
    with True 2 show ?thesis by simp
  next
    case False
    with 2 show ?thesis by simp
  qed
qed

lemma ws1_dropWhile: "ws1 s \<Longrightarrow> ws1 (dropWhile is_space s)"
  by (induction s) auto

lemma rstrip_Nil [simp]: "rstrip [] = []"
  by (simp add: rstrip_def)

lemma rstrip_Cons:
  "rstrip (c # cs) =
     (if \<forall>x \<in> set cs. is_space x then (if is_space c then [] else [c]) else c # rstrip cs)"
  by (auto simp: rstrip_def dropWhile_append)

lemma rstrip_empty_iff: "rstrip s = [] \<longleftrightarrow> (\<forall>x \<in> set s. is_space x)"
  by (induction s) (auto simp: rstrip_Cons)

lemma rstrip_hd: "rstrip s \<noteq> [] \<Longrightarrow> \<not> is_space (hd s) \<Longrightarrow> hd (rstrip s) = hd s"
  by (cases s) (auto simp: rstrip_Cons)

lemma ws1_rstrip: "ws1 s \<Longrightarrow> ws_ok (rstrip s)"
proof (induction s)
  case Nil
  show ?case by simp
next
  case (Cons c cs)
  show ?case
  proof (cases "\<forall>x \<in> set cs. is_space x")
    case True
    then show ?thesis by (simp add: rstrip_Cons)
  next
    case False
    then have ne: "rstrip cs \<noteq> []" and cne: "cs \<noteq> []"
      by (auto simp: rstrip_empty_iff)
    have ok: "ws_ok (rstrip cs)" using Cons by simp
    have "is_space c \<Longrightarrow> \<not> is_space (hd (rstrip cs))"
    proof -
      assume "is_space c"
      with Cons.prems cne have h: "\<not> is_space (hd cs)" by simp
      with ne show ?thesis by (simp add: rstrip_hd)
    qed
    with False ne ok Cons.prems show ?thesis by (auto simp: rstrip_Cons)
  qed
qed

lemma strip_rstrip: "strip s = rstrip (dropWhile is_space s)"
  by (simp add: strip_def rstrip_def)

lemma clean_strip: "ws1 s \<Longrightarrow> clean (strip s)"
proof -
  assume a: "ws1 s"
  let ?v = "dropWhile is_space s"
  have v: "ws1 ?v" using a by (rule ws1_dropWhile)
  have ok: "ws_ok (rstrip ?v)" using v by (rule ws1_rstrip)
  have "rstrip ?v = [] \<or> \<not> is_space (hd (rstrip ?v))"
  proof (cases "rstrip ?v = []")
    case True then show ?thesis by simp
  next
    case False
    then have "?v \<noteq> []" by (metis rstrip_Nil)
    then have "\<not> is_space (hd ?v)" by (rule dropWhile_hd_not)
    with False show ?thesis by (simp add: rstrip_hd)
  qed
  with ok show ?thesis by (simp add: clean_def strip_rstrip)
qed

lemma clean_normalize: "clean (normalize_whitespace t)"
  by (simp add: normalize_whitespace_def clean_strip ws1_re_sub_ws)

lemma ws_ok_re_sub_ws: "ws_ok s \<Longrightarrow> re_sub_ws s = s"
proof (induction s rule: re_sub_ws.induct)
  case 1
  show ?case by simp
next
  case (2 c cs)
  show ?case
  proof (cases "is_space c")
    case True
    with 2 have "dropWhile is_space cs = cs" by (cases cs) auto
    with True 2 show ?thesis by simp
  next
    case False
    with 2 show ?thesis by simp
  qed
qed

lemma ws_ok_all_space: "ws_ok s \<Longrightarrow> \<forall>x \<in> set s. is_space x \<Longrightarrow> s = []"
  by (cases s) auto

lemma ws_ok_rstrip: "ws_ok s \<Longrightarrow> rstrip s = s"
proof (induction s)
  case Nil
  show ?case by simp
next
  case (Cons c cs)
  show ?case
  proof (cases "\<forall>x \<in> set cs. is_space x")
    case True
    with Cons.prems have "cs = []" using ws_ok_all_space [of cs] by simp
    with Cons.prems show ?thesis by (auto simp: rstrip_Cons)
  next
    case False
    with Cons show ?thesis by (auto simp: rstrip_Cons)
  qed
qed

lemma clean_strip_id: "clean s \<Longrightarrow> strip s = s"
proof -
  assume a: "clean s"
  then have "dropWhile is_space s = s" by (cases s) (auto simp: clean_def)
  with a show ?thesis by (simp add: strip_rstrip ws_ok_rstrip clean_def)
qed

lemma clean_normalize_id: "clean s \<Longrightarrow> normalize_whitespace s = s"
  by (simp add: normalize_whitespace_def ws_ok_re_sub_ws clean_strip_id clean_def)

lemma normalize_idem: "normalize_whitespace (normalize_whitespace t) = normalize_whitespace t"
  by (simp add: clean_normalize_id clean_normalize)

section \<open>Sentence segmentation\<close>

lemma sentence_list_Nil [simp]: "sentence_list []"
  by (simp add: sentence_list_def)

lemma sentence_list_Cons:
  "sentence_list (p # ys) \<longleftrightarrow>
     sentence_like p \<and> (ys \<noteq> [] \<longrightarrow> is_terminal (last p)) \<and> sentence_list ys"
proof
  assume a: "sentence_list (p # ys)"
  then have 1: "sentence_like p" and 2: "\<forall>q \<in> set ys. sentence_like q"
    by (auto simp: sentence_list_def)
  have 3: "ys \<noteq> [] \<longrightarrow> is_terminal (last p)"
  proof
    assume "ys \<noteq> []"
    then have "Suc 0 < length (p # ys)" by simp
    with a have "is_terminal (last ((p # ys) ! 0))" unfolding sentence_list_def by blast
    then show "is_terminal (last p)" by simp
  qed
  have 4: "\<forall>i. Suc i < length ys \<longrightarrow> is_terminal (last (ys ! i))"
  proof (intro allI impI)
    fix i assume "Suc i < length ys"
    then have "Suc (Suc i) < length (p # ys)" by simp
    with a have "is_terminal (last ((p # ys) ! Suc i))" unfolding sentence_list_def by blast
    then show "is_terminal (last (ys ! i))" by simp
  qed
  from 1 2 3 4 show "sentence_like p \<and> (ys \<noteq> [] \<longrightarrow> is_terminal (last p)) \<and> sentence_list ys"
    by (simp add: sentence_list_def)
next
  assume a: "sentence_like p \<and> (ys \<noteq> [] \<longrightarrow> is_terminal (last p)) \<and> sentence_list ys"
  have "\<forall>i. Suc i < length (p # ys) \<longrightarrow> is_terminal (last ((p # ys) ! i))"
  proof (intro allI impI)
    fix i assume h: "Suc i < length (p # ys)"
    show "is_terminal (last ((p # ys) ! i))"
    proof (cases i)
      case 0
      with h a show ?thesis by auto
    next
      case (Suc j)
      with h a show ?thesis by (simp add: sentence_list_def)
    qed
  qed
  with a show "sentence_list (p # ys)" by (simp add: sentence_list_def)
qed

lemma re_split_props:
  "ws_ok s \<Longrightarrow>
     \<exists>p0 rest. re_split b s = p0 # rest
       \<and> (p0 = [] \<longleftrightarrow> (s = [] \<or> (b \<and> is_space (hd s))))
       \<and> (p0 \<noteq> [] \<longrightarrow> hd p0 = hd s)
       \<and> ws_ok p0 \<and> nosplit b p0
       \<and> (rest \<noteq> [] \<longrightarrow> last_term b p0)
       \<and> sentence_list rest"
proof (induction b s rule: re_split.induct)
  case (1 b)
  show ?case by simp
next
  case (2 b c cs)
  show ?case
  proof (cases "b \<and> is_space c")
    case True
    with "2.prems" have cs: "cs \<noteq> []" "\<not> is_space (hd cs)" "ws_ok cs" by auto
    then have dw: "dropWhile is_space cs = cs" by (cases cs) auto
    from "2.IH"(1) [OF True] cs dw obtain p0 rest where
      r: "re_split False cs = p0 # rest"
      and e: "p0 = [] \<longleftrightarrow> (cs = [] \<or> (False \<and> is_space (hd cs)))"
      and h: "p0 \<noteq> [] \<longrightarrow> hd p0 = hd cs"
      and w: "ws_ok p0" and n: "nosplit False p0"
      and l: "rest \<noteq> [] \<longrightarrow> last_term False p0"
      and sl: "sentence_list rest"
      by auto
    from e cs have ne: "p0 \<noteq> []" by simp
    with h cs w n have "sentence_like p0" by (simp add: sentence_like_def clean_def)
    moreover from l ne have "rest \<noteq> [] \<longrightarrow> is_terminal (last p0)" by (simp add: last_term_def)
    ultimately have "sentence_list (p0 # rest)" using sl by (simp add: sentence_list_Cons)
    moreover have "re_split b (c # cs) = [] # p0 # rest" using True dw r by simp
    ultimately show ?thesis using True
      by (intro exI [of _ "[]"] exI [of _ "p0 # rest"]) (simp add: last_term_def del: re_split.simps)
  next
    case False
    from "2.prems" have wcs: "ws_ok cs" by simp
    from "2.IH"(2) [OF False wcs] obtain p0 rest where
      r: "re_split (is_terminal c) cs = p0 # rest"
      and e: "p0 = [] \<longleftrightarrow> (cs = [] \<or> (is_terminal c \<and> is_space (hd cs)))"
      and h: "p0 \<noteq> [] \<longrightarrow> hd p0 = hd cs"
      and w: "ws_ok p0" and n: "nosplit (is_terminal c) p0"
      and l: "rest \<noteq> [] \<longrightarrow> last_term (is_terminal c) p0"
      and sl: "sentence_list rest"
      by auto
    have eq: "re_split b (c # cs) = (c # p0) # rest" using False r by simp
    have w': "ws_ok (c # p0)"
    proof (cases "is_space c")
      case True
      with "2.prems" have "c = CHR '' ''" "cs \<noteq> []" "\<not> is_space (hd cs)" by auto
      with e h w show ?thesis by auto
    next
      case False
      with w show ?thesis by simp
    qed
    have n': "nosplit b (c # p0)" using False n by simp
    have l': "rest \<noteq> [] \<longrightarrow> last_term b (c # p0)" using l by (auto simp: last_term_def)
    from eq w' n' l' sl False show ?thesis
      by (intro exI [of _ "c # p0"] exI [of _ rest]) (simp del: re_split.simps)
  qed
qed

lemma re_split_clean:
  assumes "clean s" "s \<noteq> []"
  shows "sentence_list (re_split False s)"
proof -
  from assms have w: "ws_ok s" and hs: "\<not> is_space (hd s)" by (auto simp: clean_def)
  from re_split_props [OF w, of False] obtain p0 rest where
    r: "re_split False s = p0 # rest"
    and e: "p0 = [] \<longleftrightarrow> (s = [] \<or> (False \<and> is_space (hd s)))"
    and h: "p0 \<noteq> [] \<longrightarrow> hd p0 = hd s"
    and w0: "ws_ok p0" and n: "nosplit False p0"
    and l: "rest \<noteq> [] \<longrightarrow> last_term False p0"
    and sl: "sentence_list rest"
    by auto
  from e assms have ne: "p0 \<noteq> []" by simp
  with h hs w0 n have "sentence_like p0" by (simp add: sentence_like_def clean_def)
  moreover from l ne have "rest \<noteq> [] \<longrightarrow> is_terminal (last p0)" by (simp add: last_term_def)
  ultimately show ?thesis using sl r by (simp add: sentence_list_Cons)
qed

lemma sentence_list_strip:
  "sentence_list ys \<Longrightarrow> map strip (filter (\<lambda>p. strip p \<noteq> []) ys) = ys"
proof (induction ys)
  case Nil
  show ?case by simp
next
  case (Cons p ys)
  then have "sentence_like p" "sentence_list ys" by (simp_all add: sentence_list_Cons)
  then have "strip p = p" "p \<noteq> []" by (simp_all add: sentence_like_def clean_strip_id)
  with Cons \<open>sentence_list ys\<close> show ?case by simp
qed

lemma split_sentences_clean:
  "clean s \<Longrightarrow> split_sentences s = (if s = [] then [] else re_split False s)"
  by (simp add: split_sentences_def clean_normalize_id sentence_list_strip re_split_clean)

lemma split_sentences_normalize:
  "split_sentences (normalize_whitespace t) = split_sentences t"
  by (simp add: split_sentences_def normalize_idem)

lemma sentence_list_split: "sentence_list (split_sentences t)"
proof -
  have "sentence_list (split_sentences (normalize_whitespace t))"
    using clean_normalize [of t]
    by (simp add: split_sentences_clean re_split_clean)
  then show ?thesis by (simp add: split_sentences_normalize)
qed

lemma nosplit_re_split: "nosplit b p \<Longrightarrow> re_split b p = [p]"
  by (induction p arbitrary: b) auto

lemma re_split_append:
  "nosplit b p \<Longrightarrow> last_term b p \<Longrightarrow> q \<noteq> [] \<Longrightarrow> \<not> is_space (hd q) \<Longrightarrow>
     re_split b (p @ CHR '' '' # q) = p # re_split False q"
proof (induction p arbitrary: b)
  case Nil
  then have "dropWhile is_space q = q" by (cases q) auto
  with Nil show ?case by (simp add: last_term_def)
next
  case (Cons c p)
  have "last_term (is_terminal c) p" using Cons.prems(2) by (auto simp: last_term_def split: if_splits)
  with Cons have "re_split (is_terminal c) (p @ CHR '' '' # q) = p # re_split False q" by simp
  with Cons.prems show ?case by simp
qed

lemma join_space_Cons: "join_space (x # ys) = (if ys = [] then x else x @ CHR '' '' # join_space ys)"
  by (cases ys) simp_all

lemma join_space_hd: "y \<noteq> [] \<Longrightarrow> join_space (y # ys) \<noteq> [] \<and> hd (join_space (y # ys)) = hd y"
  by (simp add: join_space_Cons)

lemma ws_ok_append:
  "ws_ok p \<Longrightarrow> p \<noteq> [] \<Longrightarrow> ws_ok q \<Longrightarrow> q \<noteq> [] \<Longrightarrow> \<not> is_space (hd q) \<Longrightarrow>
     ws_ok (p @ CHR '' '' # q)"
proof (induction p)
  case Nil
  then show ?case by simp
next
  case (Cons c p)
  show ?case
  proof (cases "p = []")
    case True
    with Cons.prems show ?thesis by auto
  next
    case False
    with Cons have "ws_ok (p @ CHR '' '' # q)" by simp
    with Cons.prems False show ?thesis by (cases p) auto
  qed
qed

lemma sentence_list_join:
  "sentence_list ys \<Longrightarrow> ys \<noteq> [] \<Longrightarrow>
     clean (join_space ys) \<and> join_space ys \<noteq> [] \<and> re_split False (join_space ys) = ys"
proof (induction ys)
  case Nil
  then show ?case by simp
next
  case (Cons p ys)
  from Cons.prems have p: "sentence_like p" and t: "ys \<noteq> [] \<longrightarrow> is_terminal (last p)"
    and sl: "sentence_list ys" by (simp_all add: sentence_list_Cons)
  show ?case
  proof (cases "ys = []")
    case True
    with p show ?thesis by (simp add: sentence_like_def nosplit_re_split)
  next
    case False
    with Cons sl have q: "clean (join_space ys)" "join_space ys \<noteq> []"
      "re_split False (join_space ys) = ys" by simp_all
    from q have hq: "\<not> is_space (hd (join_space ys))" by (simp add: clean_def)
    from p have pp: "p \<noteq> []" "ws_ok p" "\<not> is_space (hd p)" "nosplit False p"
      by (auto simp: sentence_like_def clean_def)
    from t False pp have lt: "last_term False p" by (simp add: last_term_def)
    have 1: "ws_ok (p @ CHR '' '' # join_space ys)"
      using pp q hq by (simp add: ws_ok_append clean_def)
    have 2: "re_split False (p @ CHR '' '' # join_space ys) = p # ys"
      using re_split_append [OF pp(4) lt q(2) hq] q(3) by simp
    from 1 2 pp False show ?thesis by (simp add: join_space_Cons clean_def)
  qed
qed

lemma split_sentences_join:
  assumes "sentence_list ys"
  shows "normalize_whitespace (join_space ys) = join_space ys"
    and "split_sentences (join_space ys) = ys"
proof -
  have c: "clean (join_space ys)"
    using assms sentence_list_join [of ys] by (cases "ys = []") (auto simp: clean_def)
  then show "normalize_whitespace (join_space ys) = join_space ys" by (rule clean_normalize_id)
  show "split_sentences (join_space ys) = ys"
    using assms c sentence_list_join [of ys]
    by (cases "ys = []") (auto simp: split_sentences_clean)
qed

lemma sentence_list_select:
  assumes "sentence_list ys" "sorted_wrt (<) idxs" "\<forall>i \<in> set idxs. i < length ys"
  shows "sentence_list (map ((!) ys) idxs)"
proof -
  have 1: "\<forall>p \<in> set (map ((!) ys) idxs). sentence_like p"
    using assms(1,3) by (auto simp: sentence_list_def)
  have 2: "\<forall>k. Suc k < length (map ((!) ys) idxs) \<longrightarrow> is_terminal (last (map ((!) ys) idxs ! k))"
  proof (intro allI impI)
    fix k assume k: "Suc k < length (map ((!) ys) idxs)"
    then have "idxs ! k < idxs ! Suc k" using assms(2) by (simp add: sorted_wrt_nth_less)
    moreover have "idxs ! Suc k < length ys" using assms(3) k by simp
    ultimately have "Suc (idxs ! k) < length ys" by simp
    with assms(1) have "is_terminal (last (ys ! (idxs ! k)))" by (simp add: sentence_list_def)
    with k show "is_terminal (last (map ((!) ys) idxs ! k))" by simp
  qed
  from 1 2 show ?thesis unfolding sentence_list_def by blast
qed

section \<open>Selection of the top sentences\<close>

lemma py_take_is_take: "\<exists>n. py_take m xs = take n xs"
  by (auto simp: py_take_def)

lemma py_take_length: "0 \<le> m \<Longrightarrow> int (length (py_take m xs)) \<le> m"
  by (simp add: py_take_def)

lemma py_take_all: "int (length xs) \<le> m \<Longrightarrow> py_take m xs = xs"
  by (simp add: py_take_def)

lemma py_take_nat: "0 \<le> m \<Longrightarrow> py_take m xs = take (nat m) xs"
  by (simp add: py_take_def)

lemma take_as_nths: "take n xs = map ((!) xs) [0..<min n (length xs)]"
  by (rule nth_equalityI) auto

lemma score_sentences_idx: "map (\<lambda>x. fst (snd x)) (score_sentences freqs ys) = [0..<length ys]"
proof -
  have "map (\<lambda>x. fst (snd x)) (score_sentences freqs ys) = map fst (enumerate 0 ys)"
    by (simp add: score_sentences_def case_prod_beta comp_def)
  then show ?thesis by simp
qed

lemma score_sentences_length [simp]: "length (score_sentences freqs ys) = length ys"
  by (simp add: score_sentences_def)

lemma score_sentences_elem:
  assumes "x \<in> set (score_sentences freqs ys)"
  shows "fst (snd x) < length ys \<and> snd (snd x) = ys ! fst (snd x)
         \<and> fst x = sentence_score freqs (ys ! fst (snd x))"
proof -
  from assms obtain i s where mem: "(i, s) \<in> set (enumerate 0 ys)"
    and x: "x = (sentence_score freqs s, i, s)"
    by (auto simp: score_sentences_def)
  from mem have "i < length ys \<and> s = ys ! i" by (auto simp: in_set_enumerate_eq)
  with x show ?thesis by simp
qed

lemma top_sentences_subset: "set (top_sentences m scored) \<subseteq> set scored"
proof -
  obtain n where "py_take m (sort_by_score_desc scored) = take n (sort_by_score_desc scored)"
    using py_take_is_take by blast
  then have "set (top_sentences m scored) \<subseteq> set (sort_by_score_desc scored)"
    by (simp add: top_sentences_def set_take_subset)
  then show ?thesis by (simp add: sort_by_score_desc_def)
qed

lemma top_sentences_sorted: "sorted (map (\<lambda>x. fst (snd x)) (top_sentences m scored))"
  by (simp add: top_sentences_def)

lemma distinct_map_sort_key: "distinct (map f xs) \<Longrightarrow> distinct (map f (sort_key k xs))"
proof -
  assume a: "distinct (map f xs)"
  have "mset (map f (sort_key k xs)) = mset (map f xs)" by simp
  then show ?thesis using a by (metis mset_eq_imp_distinct_iff)
qed

lemma top_sentences_distinct:
  assumes "distinct (map f scored)"
  shows "distinct (map f (top_sentences m scored))"
proof -
  obtain n where n: "py_take m (sort_by_score_desc scored) = take n (sort_by_score_desc scored)"
    using py_take_is_take by blast
  have "distinct (map f (sort_by_score_desc scored))"
    using assms by (simp add: sort_by_score_desc_def distinct_map_sort_key)
  then have "distinct (take n (map f (sort_by_score_desc scored)))" by (rule distinct_take)
  then have "distinct (map f (take n (sort_by_score_desc scored)))" by (simp add: take_map)
  then show ?thesis by (simp add: top_sentences_def n distinct_map_sort_key)
qed

lemma top_sentences_indices:
  "sorted_wrt (<) (map (\<lambda>x. fst (snd x)) (top_sentences m (score_sentences freqs ys)))"
proof -
  have "distinct (map (\<lambda>x. fst (snd x)) (score_sentences freqs ys))"
    by (simp add: score_sentences_idx)
  then show ?thesis
    by (simp add: strict_sorted_iff top_sentences_sorted top_sentences_distinct)
qed

lemma top_sentences_texts:
  "map (\<lambda>x. snd (snd x)) (top_sentences m (score_sentences freqs ys)) =
     map ((!) ys) (map (\<lambda>x. fst (snd x)) (top_sentences m (score_sentences freqs ys)))"
  using top_sentences_subset [of m "score_sentences freqs ys"] score_sentences_elem [of _ freqs ys]
  by auto

lemma top_sentences_length:
  "0 \<le> m \<Longrightarrow> length (top_sentences m scored) = min (nat m) (length scored)"
  by (simp add: top_sentences_def py_take_nat sort_by_score_desc_def)

text \<open>
  What every path of \<open>summarize_text\<close> returns: the sentences at strictly increasing
  positions of the segmented text, joined by single spaces.
\<close>

lemma summarize_text_indices:
  "\<exists>idxs. sorted_wrt (<) idxs
      \<and> (\<forall>i \<in> set idxs. i < length (split_sentences t))
      \<and> (0 \<le> m \<longrightarrow> int (length idxs) \<le> m)
      \<and> summarize_text t m = join_space (map ((!) (split_sentences t)) idxs)"
proof -
  let ?ys = "split_sentences t"
  let ?f = "build_word_frequencies ?ys"
  let ?top = "top_sentences m (score_sentences ?f ?ys)"
  consider (empty) "?ys = []"
    | (ident) "?ys \<noteq> []" "int (length ?ys) \<le> m"
    | (fallback) "?ys \<noteq> []" "\<not> int (length ?ys) \<le> m" "?f = []"
    | (scored) "?ys \<noteq> []" "\<not> int (length ?ys) \<le> m" "?f \<noteq> []"
    by blast
  then show ?thesis
  proof cases
    case empty
    then have "summarize_text t m = join_space (map ((!) ?ys) [])"
      by (simp add: summarize_text_def split_sentences_normalize Let_def)
    then show ?thesis by (intro exI [of _ "[]"]) simp
  next
    case ident
    then have "summarize_text t m = join_space (map ((!) ?ys) [0..<length ?ys])"
      by (simp add: summarize_text_def split_sentences_normalize map_nth Let_def)
    with ident show ?thesis by (intro exI [of _ "[0..<length ?ys]"]) simp
  next
    case fallback
    obtain n where n: "py_take m ?ys = take n ?ys" using py_take_is_take by blast
    let ?idxs = "[0..<min n (length ?ys)]"
    have "summarize_text t m = join_space (py_take m ?ys)"
      using fallback by (simp add: summarize_text_def split_sentences_normalize Let_def)
    then have e: "summarize_text t m = join_space (map ((!) ?ys) ?idxs)"
      using n take_as_nths [of n ?ys] by simp
    have "0 \<le> m \<longrightarrow> int (length ?idxs) \<le> m"
    proof
      assume "0 \<le> m"
      then have "int (length (py_take m ?ys)) \<le> m" by (rule py_take_length)
      then show "int (length ?idxs) \<le> m" using n by simp
    qed
    with e show ?thesis by (intro exI [of _ ?idxs]) simp
  next
    case scored
    let ?idxs = "map (\<lambda>x. fst (snd x)) ?top"
    have "summarize_text t m = join_space (map (\<lambda>x. snd (snd x)) ?top)"
      using scored by (simp add: summarize_text_def split_sentences_normalize Let_def)
    then have e: "summarize_text t m = join_space (map ((!) ?ys) ?idxs)"
      by (simp only: top_sentences_texts)
    have r: "\<forall>i \<in> set ?idxs. i < length ?ys"
      using top_sentences_subset [of m "score_sentences ?f ?ys"] score_sentences_elem [of _ ?f ?ys]
      by auto
    have l: "0 \<le> m \<longrightarrow> int (length ?idxs) \<le> m"
      by (auto simp: top_sentences_length)
    from e r l top_sentences_indices [of m ?f ?ys] show ?thesis
      by (intro exI [of _ ?idxs]) simp
  qed
qed

section \<open>Stability of the descending sort\<close>

lemma insort_key_stable_wrt:
  fixes k :: "'a \<Rightarrow> int" and i :: "'a \<Rightarrow> nat"
  assumes "sorted_wrt (\<lambda>a b. k a < k b \<or> (k a = k b \<and> i a < i b)) ys"
    and "\<forall>y \<in> set ys. i x < i y"
  shows "sorted_wrt (\<lambda>a b. k a < k b \<or> (k a = k b \<and> i a < i b)) (insort_key k x ys)"
  using assms
proof (induction ys)
  case Nil
  show ?case by simp
next
  case (Cons y ys)
  show ?case
  proof (cases "k x \<le> k y")
    case True
    have "\<forall>z \<in> set (y # ys). k x < k z \<or> (k x = k z \<and> i x < i z)"
    proof
      fix z assume z: "z \<in> set (y # ys)"
      then have "k y \<le> k z" using Cons.prems(1) by auto
      with True have "k x \<le> k z" by simp
      moreover have "i x < i z" using Cons.prems(2) z by blast
      ultimately show "k x < k z \<or> (k x = k z \<and> i x < i z)" by auto
    qed
    with True Cons.prems(1) show ?thesis by simp
  next
    case False
    have "sorted_wrt (\<lambda>a b. k a < k b \<or> (k a = k b \<and> i a < i b)) (insort_key k x ys)"
      using Cons by simp
    with False Cons.prems(1) show ?thesis by (auto simp: set_insort_key)
  qed
qed

lemma sort_key_stable_wrt:
  fixes k :: "'a \<Rightarrow> int" and i :: "'a \<Rightarrow> nat"
  assumes "sorted_wrt (\<lambda>a b. i a < i b) xs"
  shows "sorted_wrt (\<lambda>a b. k a < k b \<or> (k a = k b \<and> i a < i b)) (sort_key k xs)"
  using assms
proof (induction xs)
  case Nil
  show ?case by simp
next
  case (Cons x xs)
  then have "sorted_wrt (\<lambda>a b. k a < k b \<or> (k a = k b \<and> i a < i b)) (sort_key k xs)"
    and "\<forall>y \<in> set (sort_key k xs). i x < i y"
    by auto
  then show ?case by (simp add: insort_key_stable_wrt)
qed

lemma score_sentences_sorted_idx:
  "sorted_wrt (\<lambda>a b. fst (snd a) < fst (snd b)) (score_sentences freqs ys)"
proof -
  have "sorted_wrt (<) (map (\<lambda>x. fst (snd x)) (score_sentences freqs ys))"
    by (simp add: score_sentences_idx strict_sorted_iff)
  then show ?thesis by (simp add: sorted_wrt_map)
qed

lemma sort_by_score_desc_order:
  "sorted_wrt (\<lambda>a b. fst b < fst a \<or> (fst a = fst b \<and> fst (snd a) < fst (snd b)))
     (sort_by_score_desc (score_sentences freqs ys))"
  using sort_key_stable_wrt [OF score_sentences_sorted_idx, of "\<lambda>x. - fst x" freqs ys]
  by (simp add: sort_by_score_desc_def)

section \<open>The distractor loops\<close>

lemma synthesize_stuck:
  assumes "int (length distractors) < k"
    and "lower (take 3 answer @ str_nat (length distractors + 1)) \<in> seen"
  shows "synthesize answer k distractors seen = None"
proof (rule ccontr)
  assume "synthesize answer k distractors seen \<noteq> None"
  then obtain y where y: "synthesize answer k distractors seen = Some y" by auto
  have "\<not> (int (length distractors) < k
            \<and> lower (take 3 answer @ str_nat (length distractors + 1)) \<in> seen)"
  proof (rule synthesize.raw_induct
      [where P = "\<lambda>a k d s y. \<not> (int (length d) < k
                      \<and> lower (take 3 a @ str_nat (length d + 1)) \<in> s)", OF _ y])
    fix f a k d s r
    assume IH: "\<And>a k d s r. f a k d s = Some r \<Longrightarrow>
                 \<not> (int (length d) < k \<and> lower (take 3 a @ str_nat (length d + 1)) \<in> s)"
      and eq: "(if int (length d) < k
                then let synthetic = take 3 a @ str_nat (length d + 1)
                     in if lower synthetic \<notin> s
                        then f a k (d @ [synthetic]) (insert (lower synthetic) s)
                        else f a k d s
                else Some (d, s)) = Some r"
    show "\<not> (int (length d) < k \<and> lower (take 3 a @ str_nat (length d + 1)) \<in> s)"
    proof
      assume c: "int (length d) < k \<and> lower (take 3 a @ str_nat (length d + 1)) \<in> s"
      with eq have "f a k d s = Some r" by (simp add: Let_def)
      from IH [OF this] c show False by blast
    qed
  qed
  with assms show False by simp
qed

lemma synthesize_result:
  assumes "synthesize answer k distractors seen = Some y"
  shows "(distractor_inv answer distractors seen \<longrightarrow> distractor_inv answer (fst y) (snd y))
         \<and> (int (length distractors) \<le> k \<longrightarrow> int (length (fst y)) = k)"
proof (rule synthesize.raw_induct
    [where P = "\<lambda>a k d s y. (distractor_inv a d s \<longrightarrow> distractor_inv a (fst y) (snd y))
                    \<and> (int (length d) \<le> k \<longrightarrow> int (length (fst y)) = k)", OF _ assms])
  fix f a k d s r
  assume IH: "\<And>a k d s r. f a k d s = Some r \<Longrightarrow>
               (distractor_inv a d s \<longrightarrow> distractor_inv a (fst r) (snd r))
               \<and> (int (length d) \<le> k \<longrightarrow> int (length (fst r)) = k)"
    and eq: "(if int (length d) < k
              then let synthetic = take 3 a @ str_nat (length d + 1)
                   in if lower synthetic \<notin> s
                      then f a k (d @ [synthetic]) (insert (lower synthetic) s)
                      else f a k d s
              else Some (d, s)) = Some r"
  let ?syn = "take 3 a @ str_nat (length d + 1)"
  show "(distractor_inv a d s \<longrightarrow> distractor_inv a (fst r) (snd r))
        \<and> (int (length d) \<le> k \<longrightarrow> int (length (fst r)) = k)"
  proof (cases "int (length d) < k")
    case False
    with eq show ?thesis by auto
  next
    case lt: True
    show ?thesis
    proof (cases "lower ?syn \<in> s")
      case True
      with lt eq have "f a k d s = Some r" by (simp add: Let_def)
      from IH [OF this] show ?thesis .
    next
      case False
      with lt eq have "f a k (d @ [?syn]) (insert (lower ?syn) s) = Some r"
        by (simp add: Let_def)
      from IH [OF this]
      have p: "distractor_inv a (d @ [?syn]) (insert (lower ?syn) s)
                 \<longrightarrow> distractor_inv a (fst r) (snd r)"
        and q: "int (length (d @ [?syn])) \<le> k \<longrightarrow> int (length (fst r)) = k"
        by simp_all
      have "distractor_inv a d s
              \<Longrightarrow> distractor_inv a (d @ [?syn]) (insert (lower ?syn) s)"
        using False by (auto simp: distractor_inv_def)
      with p q lt show ?thesis by auto
    qed
  qed
qed

lemma scan_vocabulary_result:
  assumes "scan_vocabulary k vocabulary distractors seen = (distractors', seen')"
  shows "(distractor_inv answer distractors seen \<longrightarrow> distractor_inv answer distractors' seen')
         \<and> (int (length distractors) < k \<longrightarrow> int (length distractors') \<le> k)"
  using assms
proof (induction k vocabulary distractors seen rule: scan_vocabulary.induct)
  case (1 k distractors seen)
  then show ?case by auto
next
  case (2 k token vocabulary distractors seen)
  show ?case
  proof (cases "lower token \<in> seen \<or> length token \<le> 3 \<or> lower token \<in> STOPWORDS")
    case True
    with "2.prems" have "scan_vocabulary k vocabulary distractors seen = (distractors', seen')"
      by (auto simp: Let_def split: if_splits)
    with True "2.IH"(1,2) show ?thesis by (auto simp: Let_def)
  next
    case False
    have inv: "distractor_inv answer distractors seen
          \<Longrightarrow> distractor_inv answer (distractors @ [token]) (insert (lower token) seen)"
      using False by (auto simp: distractor_inv_def)
    show ?thesis
    proof (cases "int (length (distractors @ [token])) \<ge> k")
      case True
      with False "2.prems" have "distractors' = distractors @ [token]"
        "seen' = insert (lower token) seen"
        by (auto simp: Let_def)
      with inv True show ?thesis by auto
    next
      case ge: False
      with False "2.prems"
      have r: "scan_vocabulary k vocabulary (distractors @ [token]) (insert (lower token) seen)
              = (distractors', seen')"
        by (auto simp: Let_def)
      from False ge have
        "(distractor_inv answer (distractors @ [token]) (insert (lower token) seen)
            \<longrightarrow> distractor_inv answer distractors' seen')
         \<and> (int (length (distractors @ [token])) < k \<longrightarrow> int (length distractors') \<le> k)"
        using "2.IH"(3) [OF refl _ _ refl refl _ r] by auto
      with inv ge show ?thesis by auto
    qed
  qed
qed

lemma build_distractors_result:
  assumes "build_distractors answer vocabulary 3 = Some distractors"
  shows "length distractors = 3 \<and> distinct (map lower (distractors @ [answer]))"
proof -
  obtain d0 s0 where sc: "scan_vocabulary 3 vocabulary [] {lower answer} = (d0, s0)"
    by (cases "scan_vocabulary 3 vocabulary [] {lower answer}")
  with assms obtain d1 s1 where sy: "synthesize answer 3 d0 s0 = Some (d1, s1)"
    and d: "distractors = py_take 3 d1"
    by (auto simp: build_distractors_def)
  have i0: "distractor_inv answer [] {lower answer}" by (simp add: distractor_inv_def)
  from scan_vocabulary_result [OF sc, of answer] i0
  have 1: "distractor_inv answer d0 s0" and 2: "int (length d0) \<le> 3" by auto
  from synthesize_result [OF sy] 1 2
  have 3: "distractor_inv answer d1 s1" and 4: "int (length d1) = 3" by auto
  from 4 d have "distractors = d1" by (simp add: py_take_def)
  with 3 4 show ?thesis by (auto simp: distractor_inv_def)
qed

section \<open>Shuffling and indexing\<close>

lemma randbelow_less: "0 < n \<Longrightarrow> fst (randbelow n g) < n"
  by (cases g) (simp_all add: randbelow_def)

lemma shuffle_from_mset:
  "i < length xs \<or> i = 0 \<Longrightarrow> mset (fst (shuffle_from i xs g)) = mset xs"
proof (induction i arbitrary: xs g)
  case 0
  show ?case by simp
next
  case (Suc i)
  obtain j g' where r: "randbelow (Suc i + 1) g = (j, g')" by (cases "randbelow (Suc i + 1) g")
  have "fst (randbelow (Suc i + 1) g) < Suc i + 1" by (rule randbelow_less) simp
  with r have j: "j < Suc i + 1" by simp
  from Suc.prems have l: "Suc i < length xs" by simp
  with j have jl: "j < length xs" by simp
  let ?xs = "xs[Suc i := xs ! j, j := xs ! Suc i]"
  have "mset ?xs = mset xs" using jl l by (rule mset_swap)
  moreover have "mset (fst (shuffle_from i ?xs g')) = mset ?xs"
    using l by (intro Suc.IH) simp
  ultimately show ?case using r by simp
qed

lemma shuffle_mset: "shuffle xs g = (ys, g') \<Longrightarrow> mset ys = mset xs"
proof -
  assume a: "shuffle xs g = (ys, g')"
  have "length xs - 1 < length xs \<or> length xs - 1 = 0" by (cases xs) auto
  from shuffle_from_mset [OF this, of g] a show ?thesis by (simp add: shuffle_def)
qed

lemma index_of_member:
  "x \<in> set ys \<Longrightarrow> \<exists>i. index_of x ys = Some i \<and> i < length ys \<and> ys ! i = x"
  by (induction ys) auto

section \<open>The question loop\<close>

lemma select_answer_word_result:
  assumes "select_answer_word sentence used_answers g = (Some answer, g1)"
  shows "answer_candidate sentence answer \<and> lower answer \<notin> used_answers"
proof -
  let ?c = "filter (\<lambda>t. length t > 3 \<and> lower t \<notin> STOPWORDS \<and> lower t \<notin> used_answers)
              (findall_word sentence)"
  from assms have ne: "?c \<noteq> []"
    by (auto simp: select_answer_word_def Let_def split: if_splits)
  then have "fst (randbelow (length ?c) g) < length ?c" by (intro randbelow_less) simp
  moreover from assms ne have "answer = ?c ! fst (randbelow (length ?c) g)"
    by (auto simp: select_answer_word_def Let_def split: if_splits prod.splits)
  ultimately have "answer \<in> set ?c" using nth_mem by blast
  then show ?thesis by (auto simp: answer_candidate_def)
qed

lemma mcq_body_result:
  assumes "mcq_body vocab_unique sentence st = Some r"
    and "quiz_inv sentences st" and "sentence \<in> set sentences"
  shows "\<exists>st'. r = Inr st' \<and> quiz_inv sentences st'
           \<and> (fst st' = fst st \<or> (\<exists>q. fst st' = fst st @ [q]))"
proof -
  obtain mcqs used g where st: "st = (mcqs, used, g)" by (cases st)
  obtain oa g1 where sel: "select_answer_word sentence used g = (oa, g1)"
    by (cases "select_answer_word sentence used g")
  have keep: "\<And>h. quiz_inv sentences (mcqs, used, h)"
    using assms(2) st by (simp add: quiz_inv_def)
  show ?thesis
  proof (cases oa)
    case None
    with assms(1) st sel have "r = Inr (mcqs, used, g1)" by (simp add: mcq_body_def)
    with keep st show ?thesis by simp
  next
    case (Some answer)
    show ?thesis
    proof (cases "answer = [] \<or> build_question sentence answer = sentence")
      case True
      with assms(1) st sel Some have "r = Inr (mcqs, used, g1)"
        by (auto simp: mcq_body_def Let_def split: if_splits)
      with keep st show ?thesis by simp
    next
      case False
      from assms(1) st sel Some False obtain distractors where
        bd: "build_distractors answer vocab_unique 3 = Some distractors"
        by (auto simp: mcq_body_def Let_def split: option.splits)
      obtain opts g2 where sh: "shuffle (distractors @ [answer]) g1 = (opts, g2)"
        by (cases "shuffle (distractors @ [answer]) g1")
      from build_distractors_result [OF bd]
      have l3: "length distractors = 3" and dl: "distinct (map lower (distractors @ [answer]))"
        by simp_all
      from shuffle_mset [OF sh] have ms: "mset opts = mset (distractors @ [answer])" .
      then have lo: "length opts = 4" using l3 by (metis length_append_singleton mset_eq_length
            numeral_eq_Suc pred_numeral_simps(2) semiring_norm(26) semiring_norm(27))
      from ms have "mset (map lower opts) = mset (map lower (distractors @ [answer]))"
        by (metis mset_map)
      with dl have dopts: "distinct (map lower opts)" by (metis mset_eq_imp_distinct_iff)
      from ms have "answer \<in> set opts" by (metis in_set_conv_decomp mset_eq_setD)
      from index_of_member [OF this] obtain i where
        i: "index_of answer opts = Some i" "i < length opts" "opts ! i = answer" by blast
      let ?q = "\<lparr>question = build_question sentence answer, options = opts, answer_index = i\<rparr>"
      from assms(1) st sel Some False bd sh i
      have r: "r = Inr (mcqs @ [?q], insert (lower answer) used, g2)"
        by (auto simp: mcq_body_def Let_def)
      from select_answer_word_result [OF sel [unfolded Some]]
      have cand: "answer_candidate sentence answer" and fresh: "lower answer \<notin> used" by simp_all
      have ans: "mcq_answer ?q = answer" using i by (simp add: mcq_answer_def)
      have ok: "mcq_ok sentences ?q"
        unfolding mcq_ok_def ans using lo i dopts cand assms(3) by auto
      have "quiz_inv sentences (mcqs @ [?q], insert (lower answer) used, g2)"
        using assms(2) st ok fresh ans by (auto simp: quiz_inv_def)
      with r st show ?thesis by simp
    qed
  qed
qed

lemma mcq_loop_result:
  assumes "mcq_loop vocab_unique k rest st = Some r"
    and "quiz_inv sentences st" and "set rest \<subseteq> set sentences"
  shows "\<exists>st'. r = Inr st' \<and> quiz_inv sentences st'
           \<and> length (fst st') \<le> length (fst st) + length rest
           \<and> (int (length (fst st)) \<le> k \<longrightarrow> int (length (fst st')) \<le> k)"
  using assms
proof (induction rest arbitrary: st)
  case Nil
  then show ?case by (intro exI [of _ st]) auto
next
  case (Cons sentence rest)
  show ?case
  proof (cases "int (length (fst st)) \<ge> k")
    case True
    with Cons.prems show ?thesis by (intro exI [of _ st]) auto
  next
    case False
    with Cons.prems(1) obtain r1 where b: "mcq_body vocab_unique sentence st = Some r1"
      by (auto split: option.splits)
    from Cons.prems have "sentence \<in> set sentences" by simp
    from mcq_body_result [OF b Cons.prems(2) this] obtain st1 where
      r1: "r1 = Inr st1" and i1: "quiz_inv sentences st1"
      and g: "fst st1 = fst st \<or> (\<exists>q. fst st1 = fst st @ [q])"
      by blast
    from False Cons.prems(1) b r1 have "mcq_loop vocab_unique k rest st1 = Some r" by simp
    from Cons.IH [OF this i1] Cons.prems(3) obtain st' where
      s: "r = Inr st'" "quiz_inv sentences st'"
      "length (fst st') \<le> length (fst st1) + length rest"
      "int (length (fst st1)) \<le> k \<longrightarrow> int (length (fst st')) \<le> k"
      by auto
    from g False have "length (fst st1) \<le> length (fst st) + 1" "int (length (fst st1)) \<le> k"
      by auto
    with s show ?thesis by auto
  qed
qed

lemma quiz_run_result:
  assumes "quiz_run g doc k = Some r"
  shows "\<exists>st'. r = Inr st'
           \<and> quiz_inv (eligible_sentences (normalize_whitespace doc)) st'
           \<and> length (fst st') \<le> length (eligible_sentences (normalize_whitespace doc))
           \<and> (0 \<le> k \<longrightarrow> int (length (fst st')) \<le> k)"
proof -
  let ?s = "eligible_sentences (normalize_whitespace doc)"
  have i0: "\<And>h. quiz_inv ?s ([], {}, h)" by (simp add: quiz_inv_def)
  show ?thesis
  proof (cases "?s = []")
    case True
    with assms have "r = Inr ([], {}, g)" by (simp add: quiz_run_def Let_def)
    with i0 show ?thesis by simp
  next
    case False
    with assms have "mcq_loop (build_vocabulary (normalize_whitespace doc)) k ?s ([], {}, g) = Some r"
      by (simp add: quiz_run_def Let_def)
    from mcq_loop_result [OF this i0] show ?thesis by auto
  qed
qed

lemma select_answer_word_single:
  assumes "filter (\<lambda>t. length t > 3 \<and> lower t \<notin> STOPWORDS \<and> lower t \<notin> used_answers)
             (findall_word sentence) = [answer]"
  shows "fst (select_answer_word sentence used_answers g) = Some answer"
  unfolding select_answer_word_def Let_def assms
  by (cases g) (simp_all add: randbelow_def)

lemma mcq_body_never_returns:
  assumes "fst (select_answer_word sentence used_answers g) = Some answer"
    and "answer \<noteq> []" and "build_question sentence answer \<noteq> sentence"
    and "build_distractors answer vocab_unique 3 = None"
  shows "mcq_body vocab_unique sentence (mcqs, used_answers, g) = None"
  using assms
  by (cases "select_answer_word sentence used_answers g") (simp add: mcq_body_def Let_def)

lemma quiz_run_never_returns:
  assumes "eligible_sentences (normalize_whitespace doc) = sentence # rest"
    and "0 < k"
    and "mcq_body (build_vocabulary (normalize_whitespace doc)) sentence ([], {}, g) = None"
  shows "generate_mcqs_from_text g doc k = None"
  using assms by (simp add: generate_mcqs_from_text_def quiz_run_def Let_def)

lemma build_distractors_stuck:
  assumes "scan_vocabulary 3 vocabulary [] {lower answer} = (distractors, seen)"
    and "int (length distractors) < 3"
    and "lower (take 3 answer @ str_nat (length distractors + 1)) \<in> seen"
  shows "build_distractors answer vocabulary 3 = None"
  using assms(1) synthesize_stuck [OF assms(2,3)] by (simp add: build_distractors_def)

lemma select_answer_word_cases:
  assumes "filter (\<lambda>t. length t > 3 \<and> lower t \<notin> STOPWORDS \<and> lower t \<notin> used_answers)
             (findall_word sentence) = candidates"
    and "candidates \<noteq> []"
  shows "\<exists>answer \<in> set candidates.
           fst (select_answer_word sentence used_answers g) = Some answer"
proof -
  obtain i g' where r: "randbelow (length candidates) g = (i, g')"
    by (cases "randbelow (length candidates) g")
  have "fst (randbelow (length candidates) g) < length candidates"
    using assms(2) by (intro randbelow_less) simp
  with r have i: "i < length candidates" by simp
  have "select_answer_word sentence used_answers g = (Some (candidates ! i), g')"
    unfolding select_answer_word_def Let_def assms(1) using assms(2) r by simp
  with i show ?thesis by (intro bexI [of _ "candidates ! i"]) simp_all
qed

text \<open>
  What a call of \<open>generate_mcqs_from_text\<close> that returns satisfies: it does not raise, it
  gives at most \<open>k\<close> questions (for \<open>k \<ge> 0\<close>) and at most one per eligible sentence, each
  with four options and an \<open>answer_index\<close> in 0..3 that points at the answer word blanked
  out of its sentence.
\<close>

lemma generate_mcqs_returned_bounds:
  assumes "generate_mcqs_from_text g doc k = Some r" and "0 \<le> k"
  shows "\<exists>mcqs. r = Inr mcqs
           \<and> int (length mcqs) \<le> k
           \<and> length mcqs \<le> length (eligible_sentences doc)
           \<and> (\<forall>q \<in> set mcqs.
                 length (options q) = 4 \<and> answer_index q < 4
                 \<and> (\<exists>s \<in> set (eligible_sentences doc).
                       answer_candidate s (options q ! answer_index q)
                       \<and> question q = build_question s (options q ! answer_index q)))"
proof -
  have e: "eligible_sentences (normalize_whitespace doc) = eligible_sentences doc"
    by (simp add: eligible_sentences_def split_sentences_normalize)
  from assms obtain r0 where r0: "quiz_run g doc k = Some r0" and r: "r = map_sum id fst r0"
    by (auto simp: generate_mcqs_from_text_def)
  from quiz_run_result [OF r0] assms(2) e obtain st' where
    s: "r0 = Inr st'" "quiz_inv (eligible_sentences doc) st'"
    "length (fst st') \<le> length (eligible_sentences doc)" "int (length (fst st')) \<le> k"
    by auto
  from s(2) have "\<forall>q \<in> set (fst st').
      length (options q) = 4 \<and> answer_index q < 4
      \<and> (\<exists>s \<in> set (eligible_sentences doc).
            answer_candidate s (options q ! answer_index q)
            \<and> question q = build_question s (options q ! answer_index q))"
    by (auto simp: quiz_inv_def mcq_ok_def mcq_answer_def)
  with r s show ?thesis by (intro exI [of _ "fst st'"]) simp
qed



section \<open>Claims about the summarizer\<close>

text \<open>
  C1. When the doc segments into at most \<open>max_sentences\<close> sentences, \<open>summarize_text\<close>
  returns exactly those sentences, in their original order, joined by single spaces
  (the identity path; the frequency table and the scores play no part in the result).
\<close>

theorem summarize_text_identity_path:
  assumes "int (length (split_sentences doc)) \<le> max_sentences"
  shows "summarize_text doc max_sentences = join_space (split_sentences doc)"
proof (cases "split_sentences doc = []")
  case True
  then show ?thesis by (simp add: summarize_text_def split_sentences_normalize Let_def)
next
  case False
  with assms show ?thesis by (simp add: summarize_text_def split_sentences_normalize Let_def)
qed

theorem summarize_text_identity_path_witness:
  "split_sentences ''One  day. Two!'' = [''One day.'', ''Two!'']
   \<and> summarize_text ''One  day. Two!'' 5 = ''One day. Two!''"
proof -
  have s: "split_sentences ''One  day. Two!'' = [''One day.'', ''Two!'']" by code_simp
  then have "int (length (split_sentences ''One  day. Two!'')) \<le> 5" by simp
  from summarize_text_identity_path [OF this] s show ?thesis by simp
qed

text \<open>
  C2. On every path (identity, fallback, scored selection) and for every
  \<open>max_sentences\<close>, the output of \<open>summarize_text\<close> is the sentences at increasing
  positions of the segmented doc, joined by single spaces; on the scored path the
  positions are those of the list \<open>top\<close>, which is sorted by original index whatever the
  scores are.
\<close>

theorem summarize_text_document_order:
  "(\<exists>idxs. sorted idxs \<and> distinct idxs
      \<and> (\<forall>i \<in> set idxs. i < length (split_sentences doc))
      \<and> summarize_text doc max_sentences
          = join_space (map ((!) (split_sentences doc)) idxs))
   \<and> sorted (map (\<lambda>x. fst (snd x))
        (top_sentences max_sentences
           (score_sentences (build_word_frequencies (split_sentences doc))
              (split_sentences doc))))"
proof
  from summarize_text_indices [of doc max_sentences] obtain idxs where
    "sorted_wrt (<) idxs" "\<forall>i \<in> set idxs. i < length (split_sentences doc)"
    "summarize_text doc max_sentences = join_space (map ((!) (split_sentences doc)) idxs)"
    by blast
  then show "\<exists>idxs. sorted idxs \<and> distinct idxs
      \<and> (\<forall>i \<in> set idxs. i < length (split_sentences doc))
      \<and> summarize_text doc max_sentences
          = join_space (map ((!) (split_sentences doc)) idxs)"
    by (intro exI [of _ idxs]) (simp add: strict_sorted_iff)
next
  show "sorted (map (\<lambda>x. fst (snd x))
        (top_sentences max_sentences
           (score_sentences (build_word_frequencies (split_sentences doc))
              (split_sentences doc))))"
    by (rule top_sentences_sorted)
qed

theorem summarize_text_document_order_witness:
  "summarize_text ''Dogs bark. Cats purr. Cats sleep.'' 2 = ''Cats purr. Cats sleep.''
   \<and> (\<exists>idxs. sorted idxs \<and> distinct idxs
      \<and> (\<forall>i \<in> set idxs. i < length (split_sentences ''Dogs bark. Cats purr. Cats sleep.''))
      \<and> summarize_text ''Dogs bark. Cats purr. Cats sleep.'' 2
          = join_space (map ((!) (split_sentences ''Dogs bark. Cats purr. Cats sleep.'')) idxs))"
proof -
  have "summarize_text ''Dogs bark. Cats purr. Cats sleep.'' 2 = ''Cats purr. Cats sleep.''"
    by code_simp
  with summarize_text_document_order [of "''Dogs bark. Cats purr. Cats sleep.''" 2]
  show ?thesis by blast
qed

text \<open>
  C3. On the scored path (more sentences than \<open>max_sentences\<close>, a non-empty frequency
  table) the selected positions are \<open>max_sentences\<close> many, and every selected sentence
  beats every sentence left out: its score is higher, or the scores are equal and its
  original index is lower. The output is the selected sentences in document order.
\<close>

theorem summarize_text_top_scores:
  fixes doc :: string and max_sentences :: int
  defines "sentences \<equiv> split_sentences doc"
  defines "freqs \<equiv> build_word_frequencies sentences"
  defines "sel \<equiv> set (map (\<lambda>x. fst (snd x))
                     (top_sentences max_sentences (score_sentences freqs sentences)))"
  assumes "1 \<le> max_sentences" and "max_sentences < int (length sentences)"
    and "freqs \<noteq> []"
  shows "card sel = nat max_sentences \<and> sel \<subseteq> {..<length sentences}
    \<and> (\<forall>i \<in> sel. \<forall>j < length sentences. j \<notin> sel \<longrightarrow>
          sentence_score freqs (sentences ! j) < sentence_score freqs (sentences ! i)
          \<or> (sentence_score freqs (sentences ! j) = sentence_score freqs (sentences ! i)
              \<and> i < j))
    \<and> summarize_text doc max_sentences
        = join_space (map ((!) sentences) (sorted_list_of_set sel))"
proof -
  let ?scored = "score_sentences freqs sentences"
  let ?L = "sort_by_score_desc ?scored"
  let ?n = "nat max_sentences"
  let ?top = "top_sentences max_sentences ?scored"
  let ?idxs = "map (\<lambda>x. fst (snd x)) ?top"
  let ?R = "\<lambda>a b :: int \<times> nat \<times> string.
              fst b < fst a \<or> (fst a = fst b \<and> fst (snd a) < fst (snd b))"
  have m0: "0 \<le> max_sentences" using assms by simp
  have strict: "sorted_wrt (<) ?idxs" by (rule top_sentences_indices)
  then have sd: "sorted ?idxs" "distinct ?idxs" by (simp_all add: strict_sorted_iff)
  have len: "length ?idxs = ?n" using assms m0 by (simp add: top_sentences_length)
  have card: "card sel = ?n" using distinct_card [OF sd(2)] len by (simp add: sel_def)
  have elem: "\<And>x. x \<in> set ?scored \<Longrightarrow> fst (snd x) < length sentences
      \<and> snd (snd x) = sentences ! fst (snd x)
      \<and> fst x = sentence_score freqs (sentences ! fst (snd x))"
    by (rule score_sentences_elem)
  have top_take: "set ?top = set (take ?n ?L)"
    using m0 by (simp add: top_sentences_def py_take_nat)
  have sub: "sel \<subseteq> {..<length sentences}"
    using top_sentences_subset [of max_sentences ?scored] elem by (auto simp: sel_def)
  have ord: "sorted_wrt ?R (take ?n ?L @ drop ?n ?L)"
    using sort_by_score_desc_order [of freqs sentences] by simp
  have best: "\<forall>i \<in> sel. \<forall>j < length sentences. j \<notin> sel \<longrightarrow>
          sentence_score freqs (sentences ! j) < sentence_score freqs (sentences ! i)
          \<or> (sentence_score freqs (sentences ! j) = sentence_score freqs (sentences ! i)
              \<and> i < j)"
  proof (intro ballI allI impI)
    fix i j assume i: "i \<in> sel" and j: "j < length sentences" and nj: "j \<notin> sel"
    from i obtain a where a: "a \<in> set (take ?n ?L)" "fst (snd a) = i"
      using top_take by (auto simp: sel_def)
    from j have "j \<in> set (map (\<lambda>x. fst (snd x)) ?scored)"
      by (simp add: score_sentences_idx)
    then obtain b where b: "b \<in> set ?scored" "fst (snd b) = j" by auto
    then have "b \<in> set ?L" by (simp add: sort_by_score_desc_def)
    moreover have "set ?L = set (take ?n ?L) \<union> set (drop ?n ?L)"
      by (metis append_take_drop_id set_append)
    moreover have "b \<notin> set (take ?n ?L)" using nj b top_take by (auto simp: sel_def)
    ultimately have bd: "b \<in> set (drop ?n ?L)" by blast
    from ord a(1) bd have R: "?R a b" unfolding sorted_wrt_append by blast
    have "a \<in> set ?scored" using a(1) in_set_takeD [of a ?n ?L]
      by (simp add: sort_by_score_desc_def)
    with elem a(2) have fa: "fst a = sentence_score freqs (sentences ! i)" by auto
    from elem b have fb: "fst b = sentence_score freqs (sentences ! j)" by auto
    from R fa fb a(2) b(2)
    show "sentence_score freqs (sentences ! j) < sentence_score freqs (sentences ! i)
          \<or> (sentence_score freqs (sentences ! j) = sentence_score freqs (sentences ! i)
              \<and> i < j)" by auto
  qed
  have "sorted_list_of_set sel = ?idxs"
    unfolding sel_def using sd by (rule sorted_list_of_set.idem_if_sorted_distinct)
  moreover have "summarize_text doc max_sentences = join_space (map (\<lambda>x. snd (snd x)) ?top)"
    using assms by (auto simp: summarize_text_def split_sentences_normalize Let_def)
  ultimately have out: "summarize_text doc max_sentences
        = join_space (map ((!) sentences) (sorted_list_of_set sel))"
    by (simp only: top_sentences_texts sentences_def)
  from card sub best out show ?thesis by blast
qed

theorem summarize_text_top_scores_witness:
  "summarize_text ''Cats purr. Dogs bark. Cats purr. Dogs bark.'' 2 = ''Cats purr. Dogs bark.''
   \<and> card (set (map (\<lambda>x. fst (snd x))
        (top_sentences 2
          (score_sentences
            (build_word_frequencies
              (split_sentences ''Cats purr. Dogs bark. Cats purr. Dogs bark.''))
            (split_sentences ''Cats purr. Dogs bark. Cats purr. Dogs bark.''))))) = 2"
proof -
  have 1: "(1::int) \<le> 2" by simp
  have 2: "2 < int (length (split_sentences ''Cats purr. Dogs bark. Cats purr. Dogs bark.''))"
    by code_simp
  have 3: "build_word_frequencies
             (split_sentences ''Cats purr. Dogs bark. Cats purr. Dogs bark.'') \<noteq> []"
    by code_simp
  have 4: "summarize_text ''Cats purr. Dogs bark. Cats purr. Dogs bark.'' 2
             = ''Cats purr. Dogs bark.''"
    by code_simp
  from summarize_text_top_scores [OF 1 2 3] 4 show ?thesis by simp
qed

text \<open>
  C8. \<open>summarize_text\<close> is a total function of its arguments (no operation of the source
  can raise on a string and an integer), it returns the empty string when segmentation
  yields no sentence, and when the frequency table is empty it returns the first
  \<open>max_sentences\<close> sentences in original order joined by single spaces.
\<close>

theorem summarize_text_degenerate:
  "(split_sentences doc = [] \<longrightarrow> summarize_text doc max_sentences = [])
   \<and> (0 \<le> max_sentences \<and> build_word_frequencies (split_sentences doc) = [] \<longrightarrow>
        summarize_text doc max_sentences
          = join_space (take (nat max_sentences) (split_sentences doc)))"
proof (intro conjI impI)
  assume "split_sentences doc = []"
  then show "summarize_text doc max_sentences = []"
    by (simp add: summarize_text_def split_sentences_normalize Let_def)
next
  assume a: "0 \<le> max_sentences \<and> build_word_frequencies (split_sentences doc) = []"
  show "summarize_text doc max_sentences
          = join_space (take (nat max_sentences) (split_sentences doc))"
  proof (cases "int (length (split_sentences doc)) \<le> max_sentences")
    case True
    then have "take (nat max_sentences) (split_sentences doc) = split_sentences doc" by simp
    moreover have "summarize_text doc max_sentences = join_space (split_sentences doc)"
      using True by (auto simp: summarize_text_def split_sentences_normalize Let_def)
    ultimately show ?thesis by simp
  next
    case False
    with a show ?thesis
      by (auto simp: summarize_text_def split_sentences_normalize Let_def py_take_nat)
  qed
qed

theorem summarize_text_degenerate_witness:
  "split_sentences ''  '' = [] \<and> summarize_text ''  '' 3 = []
   \<and> build_word_frequencies (split_sentences ''It is. He was. I am on.'') = []
   \<and> summarize_text ''It is. He was. I am on.'' 2 = ''It is. He was.''"
proof -
  have 1: "split_sentences ''  '' = []" by code_simp
  have 2: "build_word_frequencies (split_sentences ''It is. He was. I am on.'') = []"
    by code_simp
  have 3: "join_space (take (nat 2) (split_sentences ''It is. He was. I am on.''))
             = ''It is. He was.''" by code_simp
  from summarize_text_degenerate [of "''  ''" 3] 1
    summarize_text_degenerate [of "''It is. He was. I am on.''" 2] 2 3
  show ?thesis by simp
qed

text \<open>
  C10. For \<open>max_sentences \<ge> 0\<close> (in particular \<open>\<ge> 1\<close>) summarizing a summary returns
  it unchanged: the summary is whitespace-normalized, segments into the selected
  sentences again, and these are at most \<open>max_sentences\<close>.
\<close>

theorem summarize_text_idempotent:
  assumes "0 \<le> max_sentences"
  shows "summarize_text (summarize_text doc max_sentences) max_sentences
           = summarize_text doc max_sentences"
proof -
  let ?ys = "split_sentences doc"
  from summarize_text_indices [of doc max_sentences] assms obtain idxs where
    s: "sorted_wrt (<) idxs" and r: "\<forall>i \<in> set idxs. i < length ?ys"
    and l: "int (length idxs) \<le> max_sentences"
    and out: "summarize_text doc max_sentences = join_space (map ((!) ?ys) idxs)"
    by blast
  let ?zs = "map ((!) ?ys) idxs"
  have "sentence_list ?zs" using sentence_list_split s r by (rule sentence_list_select)
  then have n: "normalize_whitespace (join_space ?zs) = join_space ?zs"
    and sp: "split_sentences (join_space ?zs) = ?zs"
    by (rule split_sentences_join)+
  have "summarize_text (join_space ?zs) max_sentences = join_space ?zs"
    using l by (auto simp: summarize_text_def n sp Let_def)
  with out show ?thesis by simp
qed

theorem summarize_text_idempotent_witness:
  "summarize_text ''Dogs bark. Cats purr. Cats sleep.'' 2 = ''Cats purr. Cats sleep.''
   \<and> summarize_text ''Cats purr. Cats sleep.'' 2 = ''Cats purr. Cats sleep.''"
proof -
  have e: "summarize_text ''Dogs bark. Cats purr. Cats sleep.'' 2 = ''Cats purr. Cats sleep.''"
    by code_simp
  have "(0::int) \<le> 2" by simp
  from summarize_text_idempotent [OF this, of "''Dogs bark. Cats purr. Cats sleep.''"] e
  show ?thesis by simp
qed

section \<open>Claims about the quiz builder\<close>

text \<open>
  C4. In every question that \<open>generate_mcqs_from_text\<close> returns, the four options are
  pairwise different when compared case-insensitively, so exactly one of them (the one
  \<open>answer_index\<close> points at) equals the answer's text case-insensitively. A call that
  returns does not raise.
\<close>

theorem mcq_options_distinct:
  assumes "generate_mcqs_from_text g doc k = Some r"
  shows "\<exists>mcqs. r = Inr mcqs
           \<and> (\<forall>q \<in> set mcqs.
                 length (options q) = 4 \<and> answer_index q < 4
                 \<and> distinct (map lower (options q))
                 \<and> (\<forall>i < 4. lower (options q ! i) = lower (options q ! answer_index q)
                                \<longleftrightarrow> i = answer_index q))"
proof -
  from assms obtain r0 where r0: "quiz_run g doc k = Some r0" and r: "r = map_sum id fst r0"
    by (auto simp: generate_mcqs_from_text_def)
  from quiz_run_result [OF r0] obtain st' where
    s: "r0 = Inr st'" "quiz_inv (eligible_sentences (normalize_whitespace doc)) st'"
    by blast
  have "\<forall>q \<in> set (fst st').
          length (options q) = 4 \<and> answer_index q < 4 \<and> distinct (map lower (options q))
          \<and> (\<forall>i < 4. lower (options q ! i) = lower (options q ! answer_index q)
                         \<longleftrightarrow> i = answer_index q)"
  proof
    fix q assume "q \<in> set (fst st')"
    with s(2) have ok: "length (options q) = 4" "answer_index q < 4"
      "distinct (map lower (options q))"
      by (auto simp: quiz_inv_def mcq_ok_def)
    have "\<forall>i < 4. lower (options q ! i) = lower (options q ! answer_index q)
                     \<longleftrightarrow> i = answer_index q"
    proof (intro allI impI)
      fix i :: nat assume i: "i < 4"
      have "map lower (options q) ! i = map lower (options q) ! answer_index q
              \<longleftrightarrow> i = answer_index q"
        using ok i by (intro nth_eq_iff_index_eq) simp_all
      with ok i show "lower (options q ! i) = lower (options q ! answer_index q)
                        \<longleftrightarrow> i = answer_index q" by simp
    qed
    with ok show "length (options q) = 4 \<and> answer_index q < 4
          \<and> distinct (map lower (options q))
          \<and> (\<forall>i < 4. lower (options q ! i) = lower (options q ! answer_index q)
                         \<longleftrightarrow> i = answer_index q)" by blast
  qed
  with r s(1) show ?thesis by (intro exI [of _ "fst st'"]) simp
qed

theorem mcq_options_distinct_witness:
  "generate_mcqs_from_text [] ''alpha beta gamma delta omega.'' 5
     = Some (Inr [\<lparr>question = ''____ beta gamma delta omega.'',
                   options = [''gamma'', ''delta'', ''alpha'', ''beta''],
                   answer_index = 2\<rparr>])
   \<and> distinct (map lower [''gamma'', ''delta'', ''alpha'', ''beta''])"
proof -
  have run: "generate_mcqs_from_text [] ''alpha beta gamma delta omega.'' 5
     = Some (Inr [\<lparr>question = ''____ beta gamma delta omega.'',
                   options = [''gamma'', ''delta'', ''alpha'', ''beta''],
                   answer_index = 2\<rparr>])"
    by code_simp
  from mcq_options_distinct [OF run] run show ?thesis by auto
qed

text \<open>
  C5. The claim that every call of \<open>generate_mcqs_from_text\<close> returns at most \<open>k\<close>
  questions, each with four options and a valid \<open>answer_index\<close>, fails on texts for which
  the call never returns. On the one-sentence text below the vocabulary is \<open>2021, 2022\<close>
  and both are the candidate answers; for either answer the other one is the only
  distractor found, the synthetic value \<open>202\<close> followed by \<open>2\<close> is already seen, and the
  \<open>while\<close> loop of \<open>_build_distractors\<close> repeats forever. So the call returns nothing,
  whatever the random draws are. (What a returning call satisfies is
  \<open>generate_mcqs_returned_bounds\<close>.)
\<close>

theorem generate_mcqs_never_returns:
  "\<forall>g. generate_mcqs_from_text g ''From 2021 to 2022 it was his.'' 5 = None"
proof
  fix g :: rng
  have n: "normalize_whitespace ''From 2021 to 2022 it was his.''
             = ''From 2021 to 2022 it was his.''" by code_simp
  have e: "eligible_sentences ''From 2021 to 2022 it was his.''
             = [''From 2021 to 2022 it was his.'']" by code_simp
  have v: "build_vocabulary ''From 2021 to 2022 it was his.'' = [''2021'', ''2022'']"
    by code_simp
  have c: "filter (\<lambda>t. length t > 3 \<and> lower t \<notin> STOPWORDS \<and> lower t \<notin> {})
             (findall_word ''From 2021 to 2022 it was his.'') = [''2021'', ''2022'']"
    by code_simp
  have q1: "build_question ''From 2021 to 2022 it was his.'' ''2021''
              = ''From ____ to 2022 it was his.''" by code_simp
  have q2: "build_question ''From 2021 to 2022 it was his.'' ''2022''
              = ''From 2021 to ____ it was his.''" by code_simp
  have sc1: "scan_vocabulary 3 [''2021'', ''2022''] [] {lower ''2021''}
               = ([''2022''], {''2022'', ''2021''})" by code_simp
  have sc2: "scan_vocabulary 3 [''2021'', ''2022''] [] {lower ''2022''}
               = ([''2021''], {''2021'', ''2022''})" by code_simp
  have syn1: "lower (take 3 ''2021'' @ str_nat (length [''2022''] + 1)) = ''2022''"
    by code_simp
  have syn2: "lower (take 3 ''2022'' @ str_nat (length [''2021''] + 1)) = ''2022''"
    by code_simp
  have bd1: "build_distractors ''2021'' [''2021'', ''2022''] 3 = None"
  proof (rule build_distractors_stuck [OF sc1])
    show "int (length [''2022'']) < 3" by simp
    show "lower (take 3 ''2021'' @ str_nat (length [''2022''] + 1)) \<in> {''2022'', ''2021''}"
      unfolding syn1 by simp
  qed
  have bd2: "build_distractors ''2022'' [''2021'', ''2022''] 3 = None"
  proof (rule build_distractors_stuck [OF sc2])
    show "int (length [''2021'']) < 3" by simp
    show "lower (take 3 ''2022'' @ str_nat (length [''2021''] + 1)) \<in> {''2021'', ''2022''}"
      unfolding syn2 by simp
  qed
  have ne: "[''2021'', ''2022''] \<noteq> ([] :: string list)" by simp
  from select_answer_word_cases [OF c ne, of g] obtain answer where
    a: "answer \<in> set [''2021'', ''2022'']"
    and sel: "fst (select_answer_word ''From 2021 to 2022 it was his.'' {} g) = Some answer"
    by blast
  from a have "answer = ''2021'' \<or> answer = ''2022''" by simp
  then have body: "mcq_body [''2021'', ''2022''] ''From 2021 to 2022 it was his.'' ([], {}, g)
                     = None"
  proof
    assume h: "answer = ''2021''"
    have "''2021'' \<noteq> ([] :: string)" by simp
    moreover have "build_question ''From 2021 to 2022 it was his.'' ''2021''
                     \<noteq> ''From 2021 to 2022 it was his.''" unfolding q1 by simp
    ultimately show ?thesis using sel [unfolded h] bd1 by (intro mcq_body_never_returns)
  next
    assume h: "answer = ''2022''"
    have "''2022'' \<noteq> ([] :: string)" by simp
    moreover have "build_question ''From 2021 to 2022 it was his.'' ''2022''
                     \<noteq> ''From 2021 to 2022 it was his.''" unfolding q2 by simp
    ultimately show ?thesis using sel [unfolded h] bd2 by (intro mcq_body_never_returns)
  qed
  show "generate_mcqs_from_text g ''From 2021 to 2022 it was his.'' 5 = None"
  proof (rule quiz_run_never_returns)
    show "eligible_sentences (normalize_whitespace ''From 2021 to 2022 it was his.'')
            = ''From 2021 to 2022 it was his.'' # []"
      unfolding n e by (rule refl)
    show "(0::int) < 5" by simp
    show "mcq_body (build_vocabulary (normalize_whitespace ''From 2021 to 2022 it was his.''))
            ''From 2021 to 2022 it was his.'' ([], {}, g) = None"
      unfolding n v by (rule body)
  qed
qed

text \<open>
  C6. In one call, the answers of the returned questions are pairwise different when
  compared case-insensitively, and the set \<open>used_answers\<close> at the end of the call is
  exactly the set of their lower-cased texts: each chosen answer is marked as used and
  no later answer is one of the used ones.
\<close>

theorem answers_unique:
  assumes "generate_mcqs_from_text g doc k = Some r"
  shows "\<exists>mcqs used_answers g'.
           quiz_run g doc k = Some (Inr (mcqs, used_answers, g')) \<and> r = Inr mcqs
           \<and> distinct (map (\<lambda>q. lower (options q ! answer_index q)) mcqs)
           \<and> used_answers = set (map (\<lambda>q. lower (options q ! answer_index q)) mcqs)"
proof -
  from assms obtain r0 where r0: "quiz_run g doc k = Some r0" and r: "r = map_sum id fst r0"
    by (auto simp: generate_mcqs_from_text_def)
  from quiz_run_result [OF r0] obtain st' where
    s: "r0 = Inr st'" "quiz_inv (eligible_sentences (normalize_whitespace doc)) st'"
    by blast
  obtain mcqs used g' where st': "st' = (mcqs, used, g')" by (cases st')
  from s(2) st' have "distinct (map (\<lambda>q. lower (options q ! answer_index q)) mcqs)"
    "used = set (map (\<lambda>q. lower (options q ! answer_index q)) mcqs)"
    by (simp_all add: quiz_inv_def mcq_answer_def)
  with r0 r s(1) st' show ?thesis by simp
qed

theorem answers_unique_witness:
  "generate_mcqs_from_text [1, 2, 3, 4]
       ''alpha beta is on omega. alpha beta is on omega. Alpha BETA OMEGA on it is.'' 5
     = Some (Inr [\<lparr>question = ''alpha ____ is on omega.'',
                   options = [''omega'', ''beta'', ''alpha'', ''bet3''], answer_index = 1\<rparr>,
                  \<lparr>question = ''____ beta is on omega.'',
                   options = [''omega'', ''alp3'', ''alpha'', ''beta''], answer_index = 2\<rparr>,
                  \<lparr>question = ''Alpha BETA ____ on it is.'',
                   options = [''beta'', ''OME3'', ''OMEGA'', ''alpha''], answer_index = 2\<rparr>])
   \<and> distinct [lower ''beta'', lower ''alpha'', lower ''OMEGA'']"
proof -
  have run: "generate_mcqs_from_text [1, 2, 3, 4]
       ''alpha beta is on omega. alpha beta is on omega. Alpha BETA OMEGA on it is.'' 5
     = Some (Inr [\<lparr>question = ''alpha ____ is on omega.'',
                   options = [''omega'', ''beta'', ''alpha'', ''bet3''], answer_index = 1\<rparr>,
                  \<lparr>question = ''____ beta is on omega.'',
                   options = [''omega'', ''alp3'', ''alpha'', ''beta''], answer_index = 2\<rparr>,
                  \<lparr>question = ''Alpha BETA ____ on it is.'',
                   options = [''beta'', ''OME3'', ''OMEGA'', ''alpha''], answer_index = 2\<rparr>])"
    by code_simp
  from answers_unique [OF run] run show ?thesis by auto
qed

text \<open>
  C7. The claim that distractor generation always ends with three distractors fails:
  the \<open>while\<close> loop repeats the same synthetic value when it collides with a value
  already seen. For the answer \<open>cat1\<close> and the vocabulary \<open>[cat1]\<close> the first synthetic
  value is \<open>cat1\<close> itself, the loop never ends, and so the whole call on the one-sentence
  text below never returns, whatever the random draws are.
\<close>

theorem build_distractors_never_returns:
  "build_distractors ''cat1'' [''cat1''] 3 = None
   \<and> build_distractors ''cats'' [''cats'', ''cat2''] 3 = None
   \<and> (\<forall>g. generate_mcqs_from_text g ''cat1 is on an it.'' 5 = None)"
proof (intro conjI)
  have sc2: "scan_vocabulary 3 [''cats'', ''cat2''] [] {lower ''cats''}
               = ([''cat2''], {''cat2'', ''cats''})"
    by code_simp
  have syn2: "lower (take 3 ''cats'' @ str_nat (length [''cat2''] + 1)) = ''cat2''"
    by code_simp
  have "synthesize ''cats'' 3 [''cat2''] {''cat2'', ''cats''} = None"
  proof (rule synthesize_stuck)
    show "int (length [''cat2'']) < 3" by simp
    show "lower (take 3 ''cats'' @ str_nat (length [''cat2''] + 1)) \<in> {''cat2'', ''cats''}"
      unfolding syn2 by simp
  qed
  with sc2 show "build_distractors ''cats'' [''cats'', ''cat2''] 3 = None"
    by (simp add: build_distractors_def)
next
  have sc: "scan_vocabulary 3 [''cat1''] [] {lower ''cat1''} = ([], {''cat1''})"
    by code_simp
  have syn: "lower (take 3 ''cat1'' @ str_nat (length ([] :: string list) + 1)) = ''cat1''"
    by code_simp
  have "synthesize ''cat1'' 3 [] {''cat1''} = None"
  proof (rule synthesize_stuck)
    show "int (length ([] :: string list)) < 3" by simp
    show "lower (take 3 ''cat1'' @ str_nat (length ([] :: string list) + 1)) \<in> {''cat1''}"
      unfolding syn by simp
  qed
  with sc have bd: "build_distractors ''cat1'' [''cat1''] 3 = None"
    by (simp add: build_distractors_def)
  show "build_distractors ''cat1'' [''cat1''] 3 = None" by (rule bd)
  show "\<forall>g. generate_mcqs_from_text g ''cat1 is on an it.'' 5 = None"
  proof
    fix g :: rng
    have n: "normalize_whitespace ''cat1 is on an it.'' = ''cat1 is on an it.''" by code_simp
    have e: "eligible_sentences ''cat1 is on an it.'' = [''cat1 is on an it.'']" by code_simp
    have v: "build_vocabulary ''cat1 is on an it.'' = [''cat1'']" by code_simp
    have c: "filter (\<lambda>t. length t > 3 \<and> lower t \<notin> STOPWORDS \<and> lower t \<notin> {})
               (findall_word ''cat1 is on an it.'') = [''cat1'']" by code_simp
    have q: "build_question ''cat1 is on an it.'' ''cat1'' = ''____ is on an it.''" by code_simp
    have sel: "fst (select_answer_word ''cat1 is on an it.'' {} g) = Some ''cat1''"
      using c by (rule select_answer_word_single)
    have ne: "''cat1'' \<noteq> ([] :: string)" by simp
    have qne: "build_question ''cat1 is on an it.'' ''cat1'' \<noteq> ''cat1 is on an it.''"
      unfolding q by simp
    have body: "mcq_body [''cat1''] ''cat1 is on an it.'' ([], {}, g) = None"
      using sel ne qne bd by (rule mcq_body_never_returns)
    show "generate_mcqs_from_text g ''cat1 is on an it.'' 5 = None"
    proof (rule quiz_run_never_returns)
      show "eligible_sentences (normalize_whitespace ''cat1 is on an it.'')
              = ''cat1 is on an it.'' # []"
        unfolding n e by (rule refl)
      show "(0::int) < 5" by simp
      show "mcq_body (build_vocabulary (normalize_whitespace ''cat1 is on an it.''))
              ''cat1 is on an it.'' ([], {}, g) = None"
        unfolding n v by (rule body)
    qed
  qed
qed

section \<open>Claims about rejected arguments\<close>





end
